theory Spec2Isabelle
  imports Main "HOL-Library.Multiset" "HOL-Library.Stream"
begin

section \<open>The question paper generator of routes/paperRoutes.js\<close>

text \<open>
  The route \<^verbatim>\<open>GET /generate\<close> reads every question of the database, groups the
  questions by their marks (2, 3 and 5), draws the four parts of the paper at random
  without replacement and answers with the paper and a report of the shortages.

  A question is a document of the database. The code reads two of its fields:
  \<^verbatim>\<open>String(q._id)\<close>, here \<open>qid\<close>, and \<^verbatim>\<open>Number(q.marks)\<close>, here \<open>marks\<close>. Every other
  field is carried along unread; it is the extension of the record. The code compares
  the marks with 2, 3 and 5 only, so a value that is no integer stands here as any
  integer other than these three.
\<close>

record question =
  qid :: string
  marks :: int

subsection \<open>The random source\<close>

text \<open>
  \<^verbatim>\<open>Math.random()\<close> is the only effect of the helpers. It is modelled by an explicit,
  endless supply of natural numbers that is threaded through every function which
  draws: the head of the supply, reduced modulo \<open>i + 1\<close>, is the value of
  \<^verbatim>\<open>Math.floor(Math.random() * (i + 1))\<close>, an integer between 0 and \<open>i\<close>, and the tail is
  the supply after the call.
\<close>

type_synonym rand = "nat stream"

subsection \<open>shuffleArray and pickRandom\<close>

text \<open>
  \<^verbatim>\<open>for (let i = arr.length - 1; i > 0; i--) { j = ...; [arr[i], arr[j]] = [arr[j], arr[i]]; }\<close>
  The first argument is the loop variable \<open>i\<close>; the loop ends when it reaches 0.
  The destructuring assignment reads both cells before it writes either.
\<close>

fun shuffle_loop :: "nat \<Rightarrow> 'a list \<Rightarrow> rand \<Rightarrow> 'a list \<times> rand" where
  "shuffle_loop 0 arr s = (arr, s)"
| "shuffle_loop (Suc i) arr s =
     (let j = shd s mod (Suc i + 1)
      in shuffle_loop i (arr[Suc i := arr ! j, j := arr ! Suc i]) (stl s))"

text \<open>
  \<^verbatim>\<open>const arr = array.slice()\<close>: the loop works on a copy. On an empty array
  \<open>arr.length - 1\<close> is \<open>-1\<close> and the loop does not run, as with \<open>0\<close> here.
\<close>

definition shuffleArray :: "'a list \<Rightarrow> rand \<Rightarrow> 'a list \<times> rand" where
  "shuffleArray array s = shuffle_loop (length array - 1) array s"

text \<open>
  \<^verbatim>\<open>if (!array || !array.length) return []\<close>, then
  \<^verbatim>\<open>shuffleArray(array).slice(0, Math.max(0, n))\<close>.
\<close>

definition pickRandom :: "'a list \<Rightarrow> int \<Rightarrow> rand \<Rightarrow> 'a list \<times> rand" where
  "pickRandom array n s =
     (if array = [] then ([], s)
      else (let (shuffled, s') = shuffleArray array s
            in (take (nat (max 0 n)) shuffled, s')))"

subsection \<open>Grouping by marks\<close>

text \<open>
  The object \<^verbatim>\<open>qByMarks\<close> has exactly the three keys 2, 3 and 5; each holds the
  questions of the input with that number of marks, in the order of the input.
\<close>

definition qByMarks ::
  "'a question_scheme list \<Rightarrow> (int \<rightharpoonup> 'a question_scheme list)" where
  "qByMarks allQuestions =
     [2 \<mapsto> filter (\<lambda>q. marks q = 2) allQuestions,
      3 \<mapsto> filter (\<lambda>q. marks q = 3) allQuestions,
      5 \<mapsto> filter (\<lambda>q. marks q = 5) allQuestions]"

subsection \<open>pickUnique\<close>

text \<open>
  The closure \<^verbatim>\<open>pickUnique(mark, count)\<close> (its \<open>count\<close> is \<open>cnt\<close> here) reads
  \<^verbatim>\<open>qByMarks\<close> and updates the set \<^verbatim>\<open>usedIds\<close>; here both are passed, and the new set is
  returned with the supply. \<^verbatim>\<open>qByMarks[mark] || []\<close>, here \<open>pool_of\<close>, is the empty array
  for a key the object does not have.
\<close>

definition pool_of :: "(int \<rightharpoonup> 'q list) \<Rightarrow> int \<Rightarrow> 'q list" where
  "pool_of qbm mark = (case qbm mark of Some p \<Rightarrow> p | None \<Rightarrow> [])"

definition pickUnique ::
  "(int \<rightharpoonup> 'a question_scheme list) \<Rightarrow> int \<Rightarrow> int \<Rightarrow> string set \<times> rand
     \<Rightarrow> 'a question_scheme list \<times> (string set \<times> rand)" where
  "pickUnique qbm mark cnt st =
     (let usedIds = fst st;
          pool = pool_of qbm mark;
          available = filter (\<lambda>q. qid q \<notin> usedIds) pool;
          (picked, s') = pickRandom available cnt (snd st)
      in (picked, (fold (\<lambda>q. insert (qid q)) picked usedIds, s')))"

subsection \<open>The four parts of the paper\<close>

text \<open>
  \<^verbatim>\<open>sectionA_need\<close>, \<^verbatim>\<open>sectionB_need_part1\<close>, \<^verbatim>\<open>sectionB_need_part2\<close> and \<^verbatim>\<open>sectionC_need\<close>:
  the marks and the count of each part.
\<close>

record need =
  need_marks :: int
  need_count :: int

definition sectionA_need :: need where
  "sectionA_need = \<lparr>need_marks = 2, need_count = 10\<rparr>"

definition sectionB_need_part1 :: need where
  "sectionB_need_part1 = \<lparr>need_marks = 2, need_count = 5\<rparr>"

definition sectionB_need_part2 :: need where
  "sectionB_need_part2 = \<lparr>need_marks = 3, need_count = 5\<rparr>"

definition sectionC_need :: need where
  "sectionC_need = \<lparr>need_marks = 5, need_count = 7\<rparr>"

text \<open>
  The four calls of \<^verbatim>\<open>pickUnique\<close>, in the order of the source, starting from
  \<^verbatim>\<open>usedIds = new Set()\<close>. The result keeps the four arrays and the state after the
  last call.
\<close>

record 'q picks =
  sectionA :: "'q list"
  sectionB_part1 :: "'q list"
  sectionB_part2 :: "'q list"
  sectionC :: "'q list"
  usedIds_end :: "string set"
  rand_end :: rand

definition allocate ::
  "(int \<rightharpoonup> 'a question_scheme list) \<Rightarrow> rand \<Rightarrow> 'a question_scheme picks" where
  "allocate qbm s =
     (let st0 = ({}, s);
          (a, st1) = pickUnique qbm (need_marks sectionA_need) (need_count sectionA_need) st0;
          (b1, st2) =
            pickUnique qbm (need_marks sectionB_need_part1) (need_count sectionB_need_part1) st1;
          (b2, st3) =
            pickUnique qbm (need_marks sectionB_need_part2) (need_count sectionB_need_part2) st2;
          (c, st4) = pickUnique qbm (need_marks sectionC_need) (need_count sectionC_need) st3
      in \<lparr>sectionA = a, sectionB_part1 = b1, sectionB_part2 = b2, sectionC = c,
          usedIds_end = fst st4, rand_end = snd st4\<rparr>)"

subsection \<open>The report and the response\<close>

record wanted_counts =
  wanted_sectionA :: int
  wanted_sectionB_part1 :: int
  wanted_sectionB_part2 :: int
  wanted_sectionC :: int

record available_counts =
  mark2 :: nat
  mark3 :: nat
  mark5 :: nat

record picked_counts =
  picked_sectionA :: nat
  picked_sectionB_part1 :: nat
  picked_sectionB_part2 :: nat
  picked_sectionC :: nat

record report =
  wanted :: wanted_counts
  available :: available_counts
  pickedCounts :: picked_counts

text \<open>
  \<^verbatim>\<open>qByMarks[2].length\<close> and its two siblings read the object after the four calls;
  the object has the three keys by construction, and a key it had not would raise
  (the \<open>None\<close> of \<open>bucket_length\<close>).
\<close>

definition bucket_length :: "(int \<rightharpoonup> 'q list) \<Rightarrow> int \<Rightarrow> nat option" where
  "bucket_length qbm k = map_option length (qbm k)"

definition make_report :: "(int \<rightharpoonup> 'q list) \<Rightarrow> 'q picks \<Rightarrow> report option" where
  "make_report qbm p =
     (case (bucket_length qbm 2, bucket_length qbm 3, bucket_length qbm 5) of
        (Some n2, Some n3, Some n5) \<Rightarrow>
          Some \<lparr>wanted =
                  \<lparr>wanted_sectionA = need_count sectionA_need,
                   wanted_sectionB_part1 = need_count sectionB_need_part1,
                   wanted_sectionB_part2 = need_count sectionB_need_part2,
                   wanted_sectionC = need_count sectionC_need\<rparr>,
                available = \<lparr>mark2 = n2, mark3 = n3, mark5 = n5\<rparr>,
                pickedCounts =
                  \<lparr>picked_sectionA = length (sectionA p),
                   picked_sectionB_part1 = length (sectionB_part1 p),
                   picked_sectionB_part2 = length (sectionB_part2 p),
                   picked_sectionC = length (sectionC p)\<rparr>\<rparr>
      | _ \<Rightarrow> None)"

text \<open>
  The body of the response. Of \<^verbatim>\<open>meta\<close> the two computed fields are kept
  (\<^verbatim>\<open>createdAt\<close> is the clock, the note and the titles are constants); of \<^verbatim>\<open>sections\<close>
  the five arrays of questions. \<^verbatim>\<open>Number(q.marks || 0)\<close> is \<open>marks q\<close>.
\<close>

record 'q questionPaper =
  totalQuestions :: nat
  totalMarks :: int
  questions_A :: "'q list"
  questions_B_part1 :: "'q list"
  questions_B_part2 :: "'q list"
  questions_B :: "'q list"
  questions_C :: "'q list"
  paper_report :: report

definition sum_marks :: "'a question_scheme list \<Rightarrow> int" where
  "sum_marks qs = fold (\<lambda>q acc. acc + marks q) qs 0"

datatype 'q response =
    Json200 "'q questionPaper"
  | Json404 string
  | Json500 string

text \<open>
  What \<^verbatim>\<open>await Question.find().lean()\<close> gives: the array of the documents, or a
  rejection, which the \<^verbatim>\<open>catch\<close> turns into the answer 500. The guard
  \<^verbatim>\<open>!allQuestions || allQuestions.length === 0\<close> answers 404 on the empty array.
\<close>

datatype 'q find_result = Rejected | Found "'q list"

definition generate :: "'a question_scheme find_result \<Rightarrow> rand \<Rightarrow> 'a question_scheme response" where
  "generate found s =
     (case found of
        Rejected \<Rightarrow> Json500 ''Server error while generating paper.''
      | Found allQuestions \<Rightarrow>
          if allQuestions = [] then Json404 ''No questions found in database.''
          else
            (let qbm = qByMarks allQuestions;
                 p = allocate qbm s;
                 sectionB = sectionB_part1 p @ sectionB_part2 p;
                 totalMarksComputed =
                   sum_marks (sectionA p) + sum_marks sectionB + sum_marks (sectionC p)
             in case make_report qbm p of
                  None \<Rightarrow> Json500 ''Server error while generating paper.''
                | Some r \<Rightarrow>
                    Json200
                      \<lparr>totalQuestions =
                         length (sectionA p) + length sectionB + length (sectionC p),
                       totalMarks = totalMarksComputed,
                       questions_A = sectionA p,
                       questions_B_part1 = sectionB_part1 p,
                       questions_B_part2 = sectionB_part2 p,
                       questions_B = sectionB,
                       questions_C = sectionC p,
                       paper_report = r\<rparr>))"

subsection \<open>The arrays as objects\<close>

text \<open>
  A JavaScript array is an object: \<^verbatim>\<open>shuffleArray\<close> swaps the cells of one in place, and
  \<^verbatim>\<open>slice\<close> and \<^verbatim>\<open>filter\<close> make new ones. To say which arrays a function writes, the
  functions are modelled a second time over a store of arrays. An address is an index
  of the store, and a new array is put at its end. The questions themselves are never
  written by the code (no field of a question is assigned), so the cells hold them as
  values. The object \<^verbatim>\<open>qByMarks\<close> is a constant whose fields are never assigned; it
  is a map from the keys to the addresses of the buckets.
\<close>

type_synonym addr = nat

type_synonym 'q store = "'q list list"

definition new_array :: "'q list \<Rightarrow> 'q store \<Rightarrow> addr \<times> 'q store" where
  "new_array xs h = (length h, h @ [xs])"

text \<open>The loop of \<^verbatim>\<open>shuffleArray\<close>, writing the array at the address \<open>arr\<close>.\<close>

fun shuffle_loop_st :: "nat \<Rightarrow> addr \<Rightarrow> 'q store \<Rightarrow> rand \<Rightarrow> 'q store \<times> rand" where
  "shuffle_loop_st 0 arr h s = (h, s)"
| "shuffle_loop_st (Suc i) arr h s =
     (let j = shd s mod (Suc i + 1)
      in shuffle_loop_st i arr
           (h[arr := (h ! arr)[Suc i := h ! arr ! j, j := h ! arr ! Suc i]]) (stl s))"

definition shuffleArray_st :: "addr \<Rightarrow> 'q store \<Rightarrow> rand \<Rightarrow> addr \<times> 'q store \<times> rand" where
  "shuffleArray_st array h s =
     (let (arr, h1) = new_array (h ! array) h;
          (h2, s') = shuffle_loop_st (length (h1 ! arr) - 1) arr h1 s
      in (arr, h2, s'))"

definition pickRandom_st :: "addr \<Rightarrow> int \<Rightarrow> 'q store \<Rightarrow> rand \<Rightarrow> addr \<times> 'q store \<times> rand" where
  "pickRandom_st array n h s =
     (if h ! array = [] then (let (r, h1) = new_array [] h in (r, h1, s))
      else (let (shuffled, h1, s') = shuffleArray_st array h s;
                (r, h2) = new_array (take (nat (max 0 n)) (h1 ! shuffled)) h1
            in (r, h2, s')))"

definition pickUnique_st ::
  "(int \<rightharpoonup> addr) \<Rightarrow> int \<Rightarrow> int \<Rightarrow> 'a question_scheme store \<times> string set \<times> rand
     \<Rightarrow> addr \<times> ('a question_scheme store \<times> string set \<times> rand)" where
  "pickUnique_st qbm mark cnt st =
     (let h = fst st; usedIds = fst (snd st);
          (pool, h0) = (case qbm mark of Some a \<Rightarrow> (a, h) | None \<Rightarrow> new_array [] h);
          (available, h1) = new_array (filter (\<lambda>q. qid q \<notin> usedIds) (h0 ! pool)) h0;
          (picked, h2, s') = pickRandom_st available cnt h1 (snd (snd st))
      in (picked, (h2, fold (\<lambda>q. insert (qid q)) (h2 ! picked) usedIds, s')))"

definition qByMarks_st ::
  "addr \<Rightarrow> 'a question_scheme store \<Rightarrow> (int \<rightharpoonup> addr) \<times> 'a question_scheme store" where
  "qByMarks_st allQuestions h =
     (let (a2, h1) = new_array (filter (\<lambda>q. marks q = 2) (h ! allQuestions)) h;
          (a3, h2) = new_array (filter (\<lambda>q. marks q = 3) (h1 ! allQuestions)) h1;
          (a5, h3) = new_array (filter (\<lambda>q. marks q = 5) (h2 ! allQuestions)) h2
      in ([2 \<mapsto> a2, 3 \<mapsto> a3, 5 \<mapsto> a5], h3))"

record 'q picks_st =
  sectionA_at :: addr
  sectionB_part1_at :: addr
  sectionB_part2_at :: addr
  sectionC_at :: addr
  store_end :: "'q store"
  usedIds_st_end :: "string set"
  rand_st_end :: rand

definition allocate_st ::
  "(int \<rightharpoonup> addr) \<Rightarrow> 'a question_scheme store \<Rightarrow> rand \<Rightarrow> 'a question_scheme picks_st" where
  "allocate_st qbm h s =
     (let st0 = (h, {}, s);
          (a, st1) = pickUnique_st qbm (need_marks sectionA_need) (need_count sectionA_need) st0;
          (b1, st2) =
            pickUnique_st qbm (need_marks sectionB_need_part1) (need_count sectionB_need_part1) st1;
          (b2, st3) =
            pickUnique_st qbm (need_marks sectionB_need_part2) (need_count sectionB_need_part2) st2;
          (c, st4) = pickUnique_st qbm (need_marks sectionC_need) (need_count sectionC_need) st3
      in \<lparr>sectionA_at = a, sectionB_part1_at = b1, sectionB_part2_at = b2, sectionC_at = c,
          store_end = fst st4, usedIds_st_end = fst (snd st4), rand_st_end = snd (snd st4)\<rparr>)"

text \<open>The bucket map as values: each key with the array that its address holds.\<close>

definition pure_of :: "'q store \<Rightarrow> (int \<rightharpoonup> addr) \<Rightarrow> (int \<rightharpoonup> 'q list)" where
  "pure_of h qbm = (\<lambda>k. map_option ((!) h) (qbm k))"

subsection \<open>The draws of one shuffle\<close>

text \<open>
  The values \<open>j\<close> that the loop of \<^verbatim>\<open>shuffleArray\<close> can draw, in the order of the
  draws: when the loop starts at \<open>i\<close> its first draw is at most \<open>i\<close>, the next at most
  \<open>i - 1\<close>, and the last, for \<open>i = 1\<close>, at most 1.
\<close>

fun valid_draws :: "nat \<Rightarrow> nat list \<Rightarrow> bool" where
  "valid_draws 0 ds = (ds = [])"
| "valid_draws (Suc i) [] = False"
| "valid_draws (Suc i) (d # ds) = (d \<le> Suc i \<and> valid_draws i ds)"

text \<open>
  The draws that the loop started at \<open>i\<close> makes from a supply: the values of \<open>j\<close>, in
  the order in which the loop computes them.
\<close>

fun draws_of :: "nat \<Rightarrow> rand \<Rightarrow> nat list" where
  "draws_of 0 s = []"
| "draws_of (Suc i) s = (shd s mod (Suc i + 1)) # draws_of i (stl s)"

subsection \<open>A pool for the scenario\<close>

text \<open>
  Twelve questions of 2 marks, three of 3 marks, none of 5 marks, and one of 4 marks
  that no part of the paper asks for.
\<close>

definition scenario_pool :: "question list" where
  "scenario_pool =
     [\<lparr>qid = ''t01'', marks = 2\<rparr>, \<lparr>qid = ''t02'', marks = 2\<rparr>, \<lparr>qid = ''t03'', marks = 2\<rparr>,
      \<lparr>qid = ''t04'', marks = 2\<rparr>, \<lparr>qid = ''u01'', marks = 3\<rparr>, \<lparr>qid = ''t05'', marks = 2\<rparr>,
      \<lparr>qid = ''t06'', marks = 2\<rparr>, \<lparr>qid = ''t07'', marks = 2\<rparr>, \<lparr>qid = ''u02'', marks = 3\<rparr>,
      \<lparr>qid = ''t08'', marks = 2\<rparr>, \<lparr>qid = ''t09'', marks = 2\<rparr>, \<lparr>qid = ''v01'', marks = 4\<rparr>,
      \<lparr>qid = ''t10'', marks = 2\<rparr>, \<lparr>qid = ''t11'', marks = 2\<rparr>, \<lparr>qid = ''u03'', marks = 3\<rparr>,
      \<lparr>qid = ''t12'', marks = 2\<rparr>]"

section \<open>Facts about the helpers\<close>

lemma shuffle_loop_length: "length (fst (shuffle_loop i arr s)) = length arr"
  by (induction i arbitrary: arr s) (simp_all add: Let_def)

lemma shuffle_loop_mset:
  "i < length arr \<or> i = 0 \<Longrightarrow> mset (fst (shuffle_loop i arr s)) = mset arr"
proof (induction i arbitrary: arr s)
  case 0
  show ?case by simp
next
  case (Suc i)
  let ?j = "shd s mod (Suc i + 1)"
  let ?arr = "arr[Suc i := arr ! ?j, ?j := arr ! Suc i]"
  from Suc.prems have i: "Suc i < length arr" by simp
  have "?j < Suc (Suc i)" by simp
  with i have j: "?j < length arr" by linarith
  have "mset (fst (shuffle_loop i ?arr (stl s))) = mset ?arr"
    using i by (intro Suc.IH) simp
  also have "mset ?arr = mset arr" by (rule mset_swap[OF j i])
  finally show ?case by (simp add: Let_def)
qed

lemma shuffleArray_length: "length (fst (shuffleArray array s)) = length array"
  by (simp add: shuffleArray_def shuffle_loop_length)

lemma shuffleArray_mset: "mset (fst (shuffleArray array s)) = mset array"
  unfolding shuffleArray_def by (rule shuffle_loop_mset) (cases array; simp)

lemma pickRandom_length:
  "length (fst (pickRandom array n s)) = min (nat (max 0 n)) (length array)"
  by (simp add: pickRandom_def split_beta shuffleArray_length Let_def min.commute)

lemma pickRandom_mset: "mset (fst (pickRandom array n s)) \<subseteq># mset array"
proof (cases "array = []")
  case True
  then show ?thesis by (simp add: pickRandom_def)
next
  case False
  let ?sh = "fst (shuffleArray array s)"
  have "mset (take (nat (max 0 n)) ?sh) \<subseteq># mset ?sh"
    by (metis append_take_drop_id mset_append mset_subset_eq_add_left)
  then show ?thesis using False
    by (simp add: pickRandom_def split_beta Let_def shuffleArray_mset)
qed

lemma fold_insert_ids: "fold (\<lambda>q. insert (f q)) qs A = A \<union> f ` set qs"
  by (induction qs arbitrary: A) auto

lemma pickUnique_fst:
  "fst (pickUnique qbm mark cnt st) =
     fst (pickRandom (filter (\<lambda>q. qid q \<notin> fst st) (pool_of qbm mark)) cnt (snd st))"
  by (simp add: pickUnique_def Let_def split_beta)

lemma pickUnique_used:
  "fst (snd (pickUnique qbm mark cnt st)) =
     fst st \<union> qid ` set (fst (pickUnique qbm mark cnt st))"
  by (simp add: pickUnique_def Let_def split_beta fold_insert_ids)

lemma pickUnique_length:
  "length (fst (pickUnique qbm mark cnt st)) =
     min (nat (max 0 cnt)) (length (filter (\<lambda>q. qid q \<notin> fst st) (pool_of qbm mark)))"
  by (simp add: pickUnique_fst pickRandom_length)

lemma pickUnique_mset:
  "mset (fst (pickUnique qbm mark cnt st)) \<subseteq>#
     mset (filter (\<lambda>q. qid q \<notin> fst st) (pool_of qbm mark))"
  unfolding pickUnique_fst by (rule pickRandom_mset)

lemma pickUnique_fresh:
  "q \<in> set (fst (pickUnique qbm mark cnt st)) \<Longrightarrow> qid q \<notin> fst st"
  using set_mset_mono[OF pickUnique_mset[of qbm mark cnt st]] by auto

lemma pickUnique_pool:
  "q \<in> set (fst (pickUnique qbm mark cnt st)) \<Longrightarrow> q \<in> set (pool_of qbm mark)"
  using set_mset_mono[OF pickUnique_mset[of qbm mark cnt st]] by auto

text \<open>The four calls of the run, named.\<close>

lemma allocate_unfold:
  "allocate qbm s =
     (let r1 = pickUnique qbm 2 10 ({}, s);
          r2 = pickUnique qbm 2 5 (snd r1);
          r3 = pickUnique qbm 3 5 (snd r2);
          r4 = pickUnique qbm 5 7 (snd r3)
      in \<lparr>sectionA = fst r1, sectionB_part1 = fst r2, sectionB_part2 = fst r3,
          sectionC = fst r4, usedIds_end = fst (snd r4), rand_end = snd (snd r4)\<rparr>)"
  by (simp add: allocate_def sectionA_need_def sectionB_need_part1_def
      sectionB_need_part2_def sectionC_need_def split_beta Let_def)

lemma allocate_lengths:
  "length (sectionA (allocate qbm s)) =
     min 10 (length (pool_of qbm 2))"
  "length (sectionB_part1 (allocate qbm s)) =
     min 5 (length [q \<leftarrow> pool_of qbm 2. qid q \<notin> qid ` set (sectionA (allocate qbm s))])"
  "length (sectionB_part2 (allocate qbm s)) =
     min 5 (length [q \<leftarrow> pool_of qbm 3.
        qid q \<notin> qid ` set (sectionA (allocate qbm s)) \<union>
          qid ` set (sectionB_part1 (allocate qbm s))])"
  "length (sectionC (allocate qbm s)) =
     min 7 (length [q \<leftarrow> pool_of qbm 5.
        qid q \<notin> qid ` set (sectionA (allocate qbm s)) \<union>
          qid ` set (sectionB_part1 (allocate qbm s)) \<union>
          qid ` set (sectionB_part2 (allocate qbm s))])"
  by (simp_all add: allocate_unfold Let_def pickUnique_length pickUnique_used)

subsection \<open>Quota respect\<close>

text \<open>
  Claim C1. A call of \<open>pickUnique\<close> with a count that is not negative delivers
  exactly \<open>min count k\<close> questions, where \<open>k\<close> is the number of questions of the
  bucket of its mark whose identifier is not in \<open>usedIds\<close> when the call is made.
  So do the four calls of a run, in their order: each is measured against the
  identifiers drawn by the calls before it.
\<close>

theorem quota_respect:
  "(0 \<le> cnt \<longrightarrow>
      int (length (fst (pickUnique qbm mark cnt (usedIds, s)))) =
        min cnt (int (length [q \<leftarrow> pool_of qbm mark. qid q \<notin> usedIds]))) \<and>
   (let p = allocate qbm s;
        used1 = qid ` set (sectionA p);
        used2 = used1 \<union> qid ` set (sectionB_part1 p);
        used3 = used2 \<union> qid ` set (sectionB_part2 p)
    in length (sectionA p) = min 10 (length [q \<leftarrow> pool_of qbm 2. qid q \<notin> {}]) \<and>
       length (sectionB_part1 p) = min 5 (length [q \<leftarrow> pool_of qbm 2. qid q \<notin> used1]) \<and>
       length (sectionB_part2 p) = min 5 (length [q \<leftarrow> pool_of qbm 3. qid q \<notin> used2]) \<and>
       length (sectionC p) = min 7 (length [q \<leftarrow> pool_of qbm 5. qid q \<notin> used3]))"
proof (intro conjI impI)
  assume "0 \<le> cnt"
  then show "int (length (fst (pickUnique qbm mark cnt (usedIds, s)))) =
        min cnt (int (length [q \<leftarrow> pool_of qbm mark. qid q \<notin> usedIds]))"
    by (simp add: pickUnique_length)
next
  show "let p = allocate qbm s;
        used1 = qid ` set (sectionA p);
        used2 = used1 \<union> qid ` set (sectionB_part1 p);
        used3 = used2 \<union> qid ` set (sectionB_part2 p)
    in length (sectionA p) = min 10 (length [q \<leftarrow> pool_of qbm 2. qid q \<notin> {}]) \<and>
       length (sectionB_part1 p) = min 5 (length [q \<leftarrow> pool_of qbm 2. qid q \<notin> used1]) \<and>
       length (sectionB_part2 p) = min 5 (length [q \<leftarrow> pool_of qbm 3. qid q \<notin> used2]) \<and>
       length (sectionC p) = min 7 (length [q \<leftarrow> pool_of qbm 5. qid q \<notin> used3])"
    unfolding Let_def using allocate_lengths[of qbm s] by simp
qed

text \<open>
  Two questions wanted from a bucket of three of which two are used already: one is
  delivered.
\<close>

theorem quota_respect_witness:
  "(0::int) \<le> 2 \<and>
   int (length (fst (pickUnique
      (qByMarks [\<lparr>qid = ''a'', marks = 2\<rparr>, \<lparr>qid = ''b'', marks = 2\<rparr>,
                 \<lparr>qid = ''c'', marks = 2\<rparr>, \<lparr>qid = ''d'', marks = 3\<rparr>])
      2 2 ({''a'', ''b''}, sconst 0)))) = 1"
  using quota_respect[of 2
      "qByMarks [\<lparr>qid = ''a'', marks = 2\<rparr>, \<lparr>qid = ''b'', marks = 2\<rparr>,
                 \<lparr>qid = ''c'', marks = 2\<rparr>, \<lparr>qid = ''d'', marks = 3\<rparr>]"
      2 "{''a'', ''b''}" "sconst 0"]
  by (simp add: qByMarks_def pool_of_def)

subsection \<open>A key without a bucket\<close>

lemma pickRandom_Nil: "pickRandom [] n s = ([], s)"
  by (simp add: pickRandom_def)

lemma pickUnique_empty_pool: "pool_of qbm mark = [] \<Longrightarrow> pickUnique qbm mark cnt st = ([], st)"
  by (simp add: pickUnique_def pickRandom_Nil)

text \<open>
  Claim C9. A call of \<open>pickUnique\<close> for a mark that is not a key of the bucket map
  delivers the empty sequence and leaves the used identifiers and the random supply as
  they were; it is the very result of the same call on the map with an empty bucket
  added under that key. The result is an ordinary value: the function has no error.
\<close>

theorem missing_key_as_empty_bucket:
  "qbm mark = None \<Longrightarrow>
     pickUnique qbm mark cnt st = ([], st) \<and>
     pickUnique qbm mark cnt st = pickUnique (qbm(mark \<mapsto> [])) mark cnt st"
  by (simp add: pickUnique_empty_pool pool_of_def)

text \<open>The bucket map of the route has no key 4.\<close>

theorem missing_key_as_empty_bucket_witness:
  "qByMarks [\<lparr>qid = ''a'', marks = 4\<rparr>, \<lparr>qid = ''b'', marks = 2\<rparr>] 4 = None \<and>
   pickUnique (qByMarks [\<lparr>qid = ''a'', marks = 4\<rparr>, \<lparr>qid = ''b'', marks = 2\<rparr>]) 4 3
       ({}, sconst 0) = ([], ({}, sconst 0))"
  using missing_key_as_empty_bucket
    [of "qByMarks [\<lparr>qid = ''a'', marks = 4\<rparr>, \<lparr>qid = ''b'', marks = 2\<rparr>]" 4 3
      "({}, sconst 0)"]
  by (simp add: qByMarks_def)

subsection \<open>A negative count\<close>

text \<open>
  The code checks no plan and has no error for one. A call with the count \<open>-1\<close> on a
  bucket of two questions returns normally with the empty sequence, and it has shuffled
  the candidates first: one draw of the random supply is consumed.
\<close>

theorem negative_count_counterexample:
  "pickUnique (qByMarks [\<lparr>qid = ''a'', marks = 2\<rparr>, \<lparr>qid = ''b'', marks = 2\<rparr>]) 2 (- 1)
       ({}, fromN 0) = ([], ({}, fromN 1))"
  by (simp add: pickUnique_def pool_of_def qByMarks_def pickRandom_def shuffleArray_def)

text \<open>
  Claim C4, as the code has it. \<^verbatim>\<open>Math.max(0, n)\<close> turns a negative count into 0: the
  call is the call with the count 0, it delivers the empty sequence and adds no
  identifier to \<open>usedIds\<close>.
\<close>

theorem negative_count_as_zero:
  "cnt < 0 \<Longrightarrow>
     pickUnique qbm mark cnt st = pickUnique qbm mark 0 st \<and>
     fst (pickUnique qbm mark cnt st) = [] \<and>
     fst (snd (pickUnique qbm mark cnt st)) = fst st"
  by (simp add: pickUnique_def pickRandom_def Let_def split_beta)

text \<open>The count \<open>-1\<close> on a bucket of two, with one foreign identifier used.\<close>

theorem negative_count_as_zero_witness:
  "(- 1 :: int) < 0 \<and>
   fst (pickUnique (qByMarks [\<lparr>qid = ''a'', marks = 2\<rparr>, \<lparr>qid = ''b'', marks = 2\<rparr>]) 2 (- 1)
       ({''c''}, sconst 0)) = [] \<and>
   fst (snd (pickUnique (qByMarks [\<lparr>qid = ''a'', marks = 2\<rparr>, \<lparr>qid = ''b'', marks = 2\<rparr>]) 2 (- 1)
       ({''c''}, sconst 0))) = {''c''}"
proof -
  have neg: "(- 1 :: int) < 0" by simp
  from negative_count_as_zero
    [OF neg, of "qByMarks [\<lparr>qid = ''a'', marks = 2\<rparr>, \<lparr>qid = ''b'', marks = 2\<rparr>]" 2
      "({''c''}, sconst 0)"]
  have "fst (pickUnique (qByMarks [\<lparr>qid = ''a'', marks = 2\<rparr>, \<lparr>qid = ''b'', marks = 2\<rparr>]) 2
          (- 1) ({''c''}, sconst 0)) = []"
    and "fst (snd (pickUnique (qByMarks [\<lparr>qid = ''a'', marks = 2\<rparr>, \<lparr>qid = ''b'', marks = 2\<rparr>])
          2 (- 1) ({''c''}, sconst 0))) = fst ({''c''}, sconst 0 :: rand)"
    by blast+
  with neg show ?thesis by simp
qed

subsection \<open>The empty collection\<close>

text \<open>
  On an empty collection the route answers 404 before it groups or draws: there is no
  paper and no report.
\<close>

theorem empty_input_counterexample:
  "generate (Found ([] :: question list)) (sconst 0) = Json404 ''No questions found in database.''"
  by (simp add: generate_def)

lemma qByMarks_Nil: "qByMarks [] = [2 \<mapsto> [], 3 \<mapsto> [], 5 \<mapsto> []]"
  by (simp add: qByMarks_def)

lemma pool_of_qByMarks:
  "pool_of (qByMarks allQuestions) k =
     (if k \<in> {2, 3, 5} then [q \<leftarrow> allQuestions. marks q = k] else [])"
  by (simp add: pool_of_def qByMarks_def)

lemma allocate_empty_pools:
  "pool_of qbm 2 = [] \<Longrightarrow> pool_of qbm 3 = [] \<Longrightarrow> pool_of qbm 5 = [] \<Longrightarrow>
     allocate qbm s =
       \<lparr>sectionA = [], sectionB_part1 = [], sectionB_part2 = [], sectionC = [],
        usedIds_end = {}, rand_end = s\<rparr>"
  by (simp add: allocate_unfold pickUnique_empty_pool)

text \<open>
  Claim C5, as the code has it. The route answers an empty collection with 404 and the
  message of the source. The steps behind the guard, applied to the empty collection,
  would give the three keys 2, 3 and 5 with an empty bucket each, the empty sequence for
  every call of \<open>pickUnique\<close> whatever its mark and count, four empty parts, and a
  report whose available and picked counts are all 0.
\<close>

theorem empty_input:
  "generate (Found []) s = Json404 ''No questions found in database.'' \<and>
   qByMarks [] = [2 \<mapsto> [], 3 \<mapsto> [], 5 \<mapsto> []] \<and>
   pickUnique (qByMarks []) mark cnt st = ([], st) \<and>
   allocate (qByMarks []) s =
     \<lparr>sectionA = [], sectionB_part1 = [], sectionB_part2 = [], sectionC = [],
      usedIds_end = {}, rand_end = s\<rparr> \<and>
   map_option available (make_report (qByMarks []) (allocate (qByMarks []) s)) =
     Some \<lparr>mark2 = 0, mark3 = 0, mark5 = 0\<rparr> \<and>
   map_option pickedCounts (make_report (qByMarks []) (allocate (qByMarks []) s)) =
     Some \<lparr>picked_sectionA = 0, picked_sectionB_part1 = 0, picked_sectionB_part2 = 0,
           picked_sectionC = 0\<rparr>"
proof (intro conjI)
  show "generate (Found []) s = Json404 ''No questions found in database.''"
    by (simp add: generate_def)
  show "qByMarks [] = [2 \<mapsto> [], 3 \<mapsto> [], 5 \<mapsto> []]"
    by (rule qByMarks_Nil)
  show "pickUnique (qByMarks []) mark cnt st = ([], st)"
    by (rule pickUnique_empty_pool) (simp add: pool_of_qByMarks)
  have a: "allocate (qByMarks []) s =
     \<lparr>sectionA = [], sectionB_part1 = [], sectionB_part2 = [], sectionC = [],
      usedIds_end = {}, rand_end = s\<rparr>"
    by (rule allocate_empty_pools) (simp_all add: pool_of_qByMarks)
  then show "allocate (qByMarks []) s =
     \<lparr>sectionA = [], sectionB_part1 = [], sectionB_part2 = [], sectionC = [],
      usedIds_end = {}, rand_end = s\<rparr>" .
  show "map_option available (make_report (qByMarks []) (allocate (qByMarks []) s)) =
     Some \<lparr>mark2 = 0, mark3 = 0, mark5 = 0\<rparr>"
    by (simp add: make_report_def bucket_length_def qByMarks_Nil)
  show "map_option pickedCounts (make_report (qByMarks []) (allocate (qByMarks []) s)) =
     Some \<lparr>picked_sectionA = 0, picked_sectionB_part1 = 0, picked_sectionB_part2 = 0,
           picked_sectionC = 0\<rparr>"
    unfolding a by (simp add: make_report_def bucket_length_def qByMarks_Nil)
qed

subsection \<open>The buckets of the grouping\<close>

text \<open>
  A question of 4 marks is in none of the three buckets, and the map has no bucket
  for its marks: the buckets together are not the input.
\<close>

theorem partition_counterexample:
  "dom (qByMarks [\<lparr>qid = ''q1'', marks = 4\<rparr>]) = {2, 3, 5} \<and>
   qByMarks [\<lparr>qid = ''q1'', marks = 4\<rparr>] 4 = None \<and>
   pool_of (qByMarks [\<lparr>qid = ''q1'', marks = 4\<rparr>]) 2 = [] \<and>
   pool_of (qByMarks [\<lparr>qid = ''q1'', marks = 4\<rparr>]) 3 = [] \<and>
   pool_of (qByMarks [\<lparr>qid = ''q1'', marks = 4\<rparr>]) 5 = [] \<and>
   mset (pool_of (qByMarks [\<lparr>qid = ''q1'', marks = 4\<rparr>]) 2) +
     mset (pool_of (qByMarks [\<lparr>qid = ''q1'', marks = 4\<rparr>]) 3) +
     mset (pool_of (qByMarks [\<lparr>qid = ''q1'', marks = 4\<rparr>]) 5) \<noteq>
   mset [\<lparr>qid = ''q1'', marks = 4\<rparr>]"
  by (auto simp add: qByMarks_def pool_of_def)

text \<open>
  Claim C3, as the code has it. The bucket map has exactly the keys 2, 3 and 5. The
  bucket of a key holds the questions of the input with that number of marks, so a
  question is in the bucket of \<open>k\<close> exactly when it is in the input, has \<open>k\<close> marks and
  \<open>k\<close> is one of the three keys. Together the three buckets hold, with their
  multiplicities, the questions of the input that have 2, 3 or 5 marks, and no other.
\<close>

theorem partition_by_marks:
  "dom (qByMarks allQuestions) = {2, 3, 5} \<and>
   qByMarks allQuestions k =
     (if k \<in> {2, 3, 5} then Some [q \<leftarrow> allQuestions. marks q = k] else None) \<and>
   (q \<in> set (pool_of (qByMarks allQuestions) k)) =
     (q \<in> set allQuestions \<and> marks q = k \<and> k \<in> {2, 3, 5}) \<and>
   mset (pool_of (qByMarks allQuestions) 2) + mset (pool_of (qByMarks allQuestions) 3) +
     mset (pool_of (qByMarks allQuestions) 5) =
     {#q \<in># mset allQuestions. marks q \<in> {2, 3, 5}#}"
proof (intro conjI)
  show "dom (qByMarks allQuestions) = {2, 3, 5}"
    by (auto simp add: qByMarks_def)
  show "qByMarks allQuestions k =
     (if k \<in> {2, 3, 5} then Some [q \<leftarrow> allQuestions. marks q = k] else None)"
    by (simp add: qByMarks_def)
  show "(q \<in> set (pool_of (qByMarks allQuestions) k)) =
     (q \<in> set allQuestions \<and> marks q = k \<and> k \<in> {2, 3, 5})"
    by (auto simp add: pool_of_qByMarks)
  show "mset (pool_of (qByMarks allQuestions) 2) + mset (pool_of (qByMarks allQuestions) 3) +
     mset (pool_of (qByMarks allQuestions) 5) =
     {#q \<in># mset allQuestions. marks q \<in> {2, 3, 5}#}"
    by (induction allQuestions) (simp_all add: pool_of_qByMarks)
qed

subsection \<open>The report\<close>

lemma make_report_qByMarks:
  "make_report (qByMarks allQuestions) p =
     Some \<lparr>wanted =
             \<lparr>wanted_sectionA = 10, wanted_sectionB_part1 = 5, wanted_sectionB_part2 = 5,
              wanted_sectionC = 7\<rparr>,
           available =
             \<lparr>mark2 = length [q \<leftarrow> allQuestions. marks q = 2],
              mark3 = length [q \<leftarrow> allQuestions. marks q = 3],
              mark5 = length [q \<leftarrow> allQuestions. marks q = 5]\<rparr>,
           pickedCounts =
             \<lparr>picked_sectionA = length (sectionA p),
              picked_sectionB_part1 = length (sectionB_part1 p),
              picked_sectionB_part2 = length (sectionB_part2 p),
              picked_sectionC = length (sectionC p)\<rparr>\<rparr>"
  by (simp add: make_report_def bucket_length_def qByMarks_def sectionA_need_def
      sectionB_need_part1_def sectionB_need_part2_def sectionC_need_def)

lemma generate_Found:
  "allQuestions \<noteq> [] \<Longrightarrow>
     generate (Found allQuestions) s =
       (let p = allocate (qByMarks allQuestions) s;
            sectionB = sectionB_part1 p @ sectionB_part2 p
        in Json200
          \<lparr>totalQuestions = length (sectionA p) + length sectionB + length (sectionC p),
           totalMarks = sum_marks (sectionA p) + sum_marks sectionB + sum_marks (sectionC p),
           questions_A = sectionA p,
           questions_B_part1 = sectionB_part1 p,
           questions_B_part2 = sectionB_part2 p,
           questions_B = sectionB,
           questions_C = sectionC p,
           paper_report = the (make_report (qByMarks allQuestions) p)\<rparr>)"
  by (simp add: generate_def Let_def make_report_qByMarks)

subsection \<open>Uniqueness\<close>

lemma pickUnique_mset_pool:
  "mset (fst (pickUnique qbm mark cnt st)) \<subseteq># mset (pool_of qbm mark)"
proof -
  have "mset (filter (\<lambda>q. qid q \<notin> fst st) (pool_of qbm mark)) \<subseteq># mset (pool_of qbm mark)"
    by simp
  with pickUnique_mset[of qbm mark cnt st] show ?thesis
    by (rule subset_mset.order_trans)
qed

lemma distinct_if_count_le_1:
  assumes "\<And>a. count (mset zs) a \<le> 1"
  shows "distinct zs"
proof -
  have "count (mset zs) a = (if a \<in> set zs then 1 else 0)" for a
  proof (cases "a \<in> set zs")
    case True
    then have "0 < count (mset zs) a" by simp
    with assms[of a] have "count (mset zs) a = 1" by linarith
    with True show ?thesis by simp
  next
    case False
    then show ?thesis by simp
  qed
  then show ?thesis
    unfolding distinct_count_atmost_1 by blast
qed

lemma distinct_map_submset:
  assumes "mset ys \<subseteq># mset xs" and "distinct (map f xs)"
  shows "distinct (map f ys)"
proof (rule distinct_if_count_le_1)
  fix a
  have "image_mset f (mset ys) \<subseteq># image_mset f (mset xs)"
    using assms(1) by (rule image_mset_subseteq_mono)
  then have "count (mset (map f ys)) a \<le> count (mset (map f xs)) a"
    by (simp add: mset_subset_eq_count)
  moreover have "count (mset (map f xs)) a \<le> 1"
    using assms(2) by (simp add: distinct_count_atmost_1)
  ultimately show "count (mset (map f ys)) a \<le> 1"
    by (rule le_trans)
qed

lemma pickUnique_disjoint_used:
  "qid ` set (fst (pickUnique qbm mark cnt st)) \<inter> fst st = {}"
  using pickUnique_fresh[of _ qbm mark cnt st] by auto

lemma pickUnique_distinct:
  "distinct (map qid (pool_of qbm mark)) \<Longrightarrow>
     distinct (map qid (fst (pickUnique qbm mark cnt st)))"
  using pickUnique_mset_pool by (rule distinct_map_submset)

lemma distinct_pool_of_qByMarks:
  "distinct (map qid allQuestions) \<Longrightarrow> distinct (map qid (pool_of (qByMarks allQuestions) k))"
  by (simp add: pool_of_qByMarks distinct_map_filter)

lemma allocate_disjoint:
  "qid ` set (sectionA (allocate qbm s)) \<inter> qid ` set (sectionB_part1 (allocate qbm s)) = {}"
  "qid ` set (sectionA (allocate qbm s)) \<inter> qid ` set (sectionB_part2 (allocate qbm s)) = {}"
  "qid ` set (sectionA (allocate qbm s)) \<inter> qid ` set (sectionC (allocate qbm s)) = {}"
  "qid ` set (sectionB_part1 (allocate qbm s)) \<inter> qid ` set (sectionB_part2 (allocate qbm s)) = {}"
  "qid ` set (sectionB_part1 (allocate qbm s)) \<inter> qid ` set (sectionC (allocate qbm s)) = {}"
  "qid ` set (sectionB_part2 (allocate qbm s)) \<inter> qid ` set (sectionC (allocate qbm s)) = {}"
proof -
  define r1 where "r1 = pickUnique qbm 2 10 ({}, s)"
  define r2 where "r2 = pickUnique qbm 2 5 (snd r1)"
  define r3 where "r3 = pickUnique qbm 3 5 (snd r2)"
  define r4 where "r4 = pickUnique qbm 5 7 (snd r3)"
  have u1: "fst (snd r1) = qid ` set (fst r1)"
    unfolding r1_def pickUnique_used by simp
  have u2: "fst (snd r2) = qid ` set (fst r1) \<union> qid ` set (fst r2)"
    unfolding r2_def pickUnique_used u1 ..
  have u3: "fst (snd r3) = qid ` set (fst r1) \<union> qid ` set (fst r2) \<union> qid ` set (fst r3)"
    unfolding r3_def pickUnique_used u2 ..
  have d2: "qid ` set (fst r2) \<inter> qid ` set (fst r1) = {}"
    using pickUnique_disjoint_used[of qbm 2 5 "snd r1"] by (simp add: r2_def u1)
  have d3: "qid ` set (fst r3) \<inter> (qid ` set (fst r1) \<union> qid ` set (fst r2)) = {}"
    using pickUnique_disjoint_used[of qbm 3 5 "snd r2"] by (simp add: r3_def u2)
  have d4: "qid ` set (fst r4) \<inter>
      (qid ` set (fst r1) \<union> qid ` set (fst r2) \<union> qid ` set (fst r3)) = {}"
    using pickUnique_disjoint_used[of qbm 5 7 "snd r3"] by (simp add: r4_def u3)
  have a: "sectionA (allocate qbm s) = fst r1" "sectionB_part1 (allocate qbm s) = fst r2"
    "sectionB_part2 (allocate qbm s) = fst r3" "sectionC (allocate qbm s) = fst r4"
    by (simp_all add: allocate_unfold Let_def r1_def r2_def r3_def r4_def)
  show "qid ` set (sectionA (allocate qbm s)) \<inter> qid ` set (sectionB_part1 (allocate qbm s)) = {}"
    unfolding a using d2 by blast
  show "qid ` set (sectionA (allocate qbm s)) \<inter> qid ` set (sectionB_part2 (allocate qbm s)) = {}"
    unfolding a using d3 by blast
  show "qid ` set (sectionA (allocate qbm s)) \<inter> qid ` set (sectionC (allocate qbm s)) = {}"
    unfolding a using d4 by blast
  show "qid ` set (sectionB_part1 (allocate qbm s)) \<inter> qid ` set (sectionB_part2 (allocate qbm s)) = {}"
    unfolding a using d3 by blast
  show "qid ` set (sectionB_part1 (allocate qbm s)) \<inter> qid ` set (sectionC (allocate qbm s)) = {}"
    unfolding a using d4 by blast
  show "qid ` set (sectionB_part2 (allocate qbm s)) \<inter> qid ` set (sectionC (allocate qbm s)) = {}"
    unfolding a using d4 by blast
qed

lemma allocate_mset_pool:
  "mset (sectionA (allocate qbm s)) \<subseteq># mset (pool_of qbm 2)"
  "mset (sectionB_part1 (allocate qbm s)) \<subseteq># mset (pool_of qbm 2)"
  "mset (sectionB_part2 (allocate qbm s)) \<subseteq># mset (pool_of qbm 3)"
  "mset (sectionC (allocate qbm s)) \<subseteq># mset (pool_of qbm 5)"
  by (simp_all add: allocate_unfold Let_def pickUnique_mset_pool)

text \<open>
  Claim C2. In a run over the buckets of any input, no identifier is in the parts of
  two different calls: the sets of the identifiers of sections A, B part 1, B part 2
  and C are pairwise disjoint. This holds whatever the input is, since a later call
  leaves out every question whose identifier is in \<open>usedIds\<close>. When the identifiers of
  the input are pairwise distinct, as the identifiers of the documents of a collection
  are, no identifier is twice in one part either, nor in the four parts together.
\<close>

theorem uniqueness:
  "(let p = allocate (qByMarks allQuestions) s;
        A = map qid (sectionA p);
        B1 = map qid (sectionB_part1 p);
        B2 = map qid (sectionB_part2 p);
        C = map qid (sectionC p)
    in set A \<inter> set B1 = {} \<and> set A \<inter> set B2 = {} \<and> set A \<inter> set C = {} \<and>
       set B1 \<inter> set B2 = {} \<and> set B1 \<inter> set C = {} \<and> set B2 \<inter> set C = {} \<and>
       (distinct (map qid allQuestions) \<longrightarrow>
          distinct A \<and> distinct B1 \<and> distinct B2 \<and> distinct C \<and>
          distinct (A @ B1 @ B2 @ C)))"
proof -
  let ?p = "allocate (qByMarks allQuestions) s"
  note dj = allocate_disjoint[of "qByMarks allQuestions" s]
  have d: "distinct (map qid (sectionA ?p))" "distinct (map qid (sectionB_part1 ?p))"
    "distinct (map qid (sectionB_part2 ?p))" "distinct (map qid (sectionC ?p))"
    if "distinct (map qid allQuestions)"
    using allocate_mset_pool[of "qByMarks allQuestions" s]
      distinct_pool_of_qByMarks[OF that]
    by (blast intro: distinct_map_submset)+
  show ?thesis
    unfolding Let_def set_map using dj d by (auto simp add: Int_Un_distrib)
qed

text \<open>Three questions with three identifiers.\<close>

theorem uniqueness_witness:
  "distinct (map qid [\<lparr>qid = ''a'', marks = 2\<rparr>, \<lparr>qid = ''b'', marks = 2\<rparr>,
                      \<lparr>qid = ''c'', marks = 3\<rparr>]) \<and>
   (let p = allocate (qByMarks [\<lparr>qid = ''a'', marks = 2\<rparr>, \<lparr>qid = ''b'', marks = 2\<rparr>,
                                \<lparr>qid = ''c'', marks = 3\<rparr>]) (sconst 0)
    in distinct (map qid (sectionA p) @ map qid (sectionB_part1 p) @
         map qid (sectionB_part2 p) @ map qid (sectionC p)))"
  using uniqueness
    [of "[\<lparr>qid = ''a'', marks = 2\<rparr>, \<lparr>qid = ''b'', marks = 2\<rparr>, \<lparr>qid = ''c'', marks = 3\<rparr>]"
      "sconst 0"]
  by (simp add: Let_def)

subsection \<open>The scenario of twelve, three and none\<close>

lemma length_filter_unused:
  assumes d: "distinct (map f pool)" and sub: "mset picked \<subseteq># mset pool"
  shows "length [q \<leftarrow> pool. f q \<notin> f ` set picked] = length pool - length picked"
proof -
  have dp: "distinct pool" using d by (simp add: distinct_map)
  have inj: "inj_on f (set pool)" using d by (simp add: distinct_map)
  have ss: "set picked \<subseteq> set pool" using set_mset_mono[OF sub] by simp
  have dk: "distinct picked"
    using distinct_map_submset[OF sub d] by (simp add: distinct_map)
  have eq: "[q \<leftarrow> pool. f q \<notin> f ` set picked] = [q \<leftarrow> pool. q \<notin> set picked]"
  proof (rule filter_cong[OF refl])
    fix q assume "q \<in> set pool"
    with inj ss show "(f q \<notin> f ` set picked) = (q \<notin> set picked)"
      by (auto dest: inj_onD)
  qed
  have "length [q \<leftarrow> pool. q \<notin> set picked] = card (set pool - set picked)"
    using dp by (simp add: distinct_length_filter Diff_eq Int_commute Collect_neg_eq)
  also have "\<dots> = card (set pool) - card (set picked)"
    using ss by (simp add: card_Diff_subset)
  also have "\<dots> = length pool - length picked"
    using dp dk by (simp add: distinct_card)
  finally show ?thesis using eq by simp
qed

lemma filter_foreign_ids:
  assumes d: "distinct (map qid allQuestions)"
    and used: "used \<subseteq> qid ` {q \<in> set allQuestions. marks q = k'}"
    and ne: "k \<noteq> k'"
  shows "[q \<leftarrow> [q \<leftarrow> allQuestions. marks q = k]. qid q \<notin> used] = [q \<leftarrow> allQuestions. marks q = k]"
proof -
  have inj: "inj_on qid (set allQuestions)" using d by (simp add: distinct_map)
  have "qid q \<notin> used" if "q \<in> set allQuestions" "marks q = k" for q
  proof
    assume "qid q \<in> used"
    with used obtain q' where "q' \<in> set allQuestions" "marks q' = k'" "qid q = qid q'"
      by auto
    with inj that have "q = q'" by (auto dest: inj_onD)
    with \<open>marks q' = k'\<close> that ne show False by simp
  qed
  then show ?thesis by (intro filter_True) simp
qed

lemma scenario_lengths:
  assumes n2: "length [q \<leftarrow> allQuestions. marks q = 2] = 12"
    and n3: "length [q \<leftarrow> allQuestions. marks q = 3] = 3"
    and n5: "length [q \<leftarrow> allQuestions. marks q = 5] = 0"
    and d: "distinct (map qid allQuestions)"
  shows "length (sectionA (allocate (qByMarks allQuestions) s)) = 10"
    and "length (sectionB_part1 (allocate (qByMarks allQuestions) s)) = 2"
    and "length (sectionB_part2 (allocate (qByMarks allQuestions) s)) = 3"
    and "length (sectionC (allocate (qByMarks allQuestions) s)) = 0"
proof -
  let ?qbm = "qByMarks allQuestions"
  let ?p = "allocate ?qbm s"
  have p2: "pool_of ?qbm 2 = [q \<leftarrow> allQuestions. marks q = 2]"
    and p3: "pool_of ?qbm 3 = [q \<leftarrow> allQuestions. marks q = 3]"
    and p5: "pool_of ?qbm 5 = [q \<leftarrow> allQuestions. marks q = 5]"
    by (simp_all add: pool_of_qByMarks)
  note len = allocate_lengths[of ?qbm s]
  note sub = allocate_mset_pool[of ?qbm s]
  show a: "length (sectionA ?p) = 10"
    using len(1) n2 by (simp add: p2)
  have "length [q \<leftarrow> pool_of ?qbm 2. qid q \<notin> qid ` set (sectionA ?p)] =
      length (pool_of ?qbm 2) - length (sectionA ?p)"
    using distinct_pool_of_qByMarks[OF d] sub(1) by (rule length_filter_unused)
  then show "length (sectionB_part1 ?p) = 2"
    using len(2) a n2 by (simp add: p2)
  have "qid ` set (sectionA ?p) \<union> qid ` set (sectionB_part1 ?p)
      \<subseteq> qid ` {q \<in> set allQuestions. marks q = 2}"
    using set_mset_mono[OF sub(1)] set_mset_mono[OF sub(2)] by (auto simp add: p2)
  then have "[q \<leftarrow> [q \<leftarrow> allQuestions. marks q = 3].
       qid q \<notin> qid ` set (sectionA ?p) \<union> qid ` set (sectionB_part1 ?p)] =
     [q \<leftarrow> allQuestions. marks q = 3]"
    by (rule filter_foreign_ids[OF d]) simp
  then show "length (sectionB_part2 ?p) = 3"
    using len(3) n3 by (simp add: p3)
  have e5: "pool_of ?qbm 5 = []"
    using n5 by (simp only: p5 length_0_conv)
  show "length (sectionC ?p) = 0"
    using len(4) unfolding e5 by simp
qed

text \<open>
  Claim C7. For an input with exactly twelve questions of 2 marks, three of 3 marks and
  none of 5 marks, with pairwise distinct identifiers, the route answers with a paper,
  whatever the random supply: section A has 10 questions, part 1 of section B the 2 of
  2 marks that are left, part 2 of section B the 3 of 3 marks, section C none; the
  report has these four picked counts and the available counts 12, 3 and 0.
\<close>

theorem scenario_twelve_three_none:
  assumes "length [q \<leftarrow> allQuestions. marks q = 2] = 12"
    and "length [q \<leftarrow> allQuestions. marks q = 3] = 3"
    and "length [q \<leftarrow> allQuestions. marks q = 5] = 0"
    and "distinct (map qid allQuestions)"
  shows "\<exists>paper. generate (Found allQuestions) s = Json200 paper \<and>
      length (questions_A paper) = 10 \<and>
      length (questions_B_part1 paper) = 2 \<and>
      length (questions_B_part2 paper) = 3 \<and>
      length (questions_C paper) = 0 \<and>
      pickedCounts (paper_report paper) =
        \<lparr>picked_sectionA = 10, picked_sectionB_part1 = 2, picked_sectionB_part2 = 3,
         picked_sectionC = 0\<rparr> \<and>
      available (paper_report paper) = \<lparr>mark2 = 12, mark3 = 3, mark5 = 0\<rparr>"
proof -
  from assms(1) have ne: "allQuestions \<noteq> []" by auto
  note l = scenario_lengths[OF assms, of s]
  show ?thesis
    unfolding generate_Found[OF ne] Let_def make_report_qByMarks
    using l assms(1-3) by simp
qed

text \<open>The pool of the scenario, with a question of 4 marks besides.\<close>

theorem scenario_twelve_three_none_witness:
  "length [q \<leftarrow> scenario_pool. marks q = 2] = 12 \<and>
   length [q \<leftarrow> scenario_pool. marks q = 3] = 3 \<and>
   length [q \<leftarrow> scenario_pool. marks q = 5] = 0 \<and>
   distinct (map qid scenario_pool) \<and>
   (\<exists>paper. generate (Found scenario_pool) (fromN 7) = Json200 paper \<and>
      pickedCounts (paper_report paper) =
        \<lparr>picked_sectionA = 10, picked_sectionB_part1 = 2, picked_sectionB_part2 = 3,
         picked_sectionC = 0\<rparr> \<and>
      available (paper_report paper) = \<lparr>mark2 = 12, mark3 = 3, mark5 = 0\<rparr>)"
proof -
  have h2: "length [q \<leftarrow> scenario_pool. marks q = 2] = 12"
    by (simp add: scenario_pool_def)
  have h3: "length [q \<leftarrow> scenario_pool. marks q = 3] = 3"
    by (simp add: scenario_pool_def)
  have h5: "length [q \<leftarrow> scenario_pool. marks q = 5] = 0"
    by (simp add: scenario_pool_def)
  have d: "distinct (map qid scenario_pool)"
    by (simp add: scenario_pool_def)
  from scenario_twelve_three_none[OF h2 h3 h5 d, of "fromN 7"]
  show ?thesis using h2 h3 h5 d by blast
qed

subsection \<open>The shuffle\<close>

lemma shuffle_loop_append:
  "i < length xs \<Longrightarrow>
     fst (shuffle_loop i (xs @ zs) s) = fst (shuffle_loop i xs s) @ zs"
proof (induction i arbitrary: xs s)
  case 0
  show ?case by simp
next
  case (Suc i)
  let ?j = "shd s mod (Suc i + 1)"
  have "?j < Suc (Suc i)" by simp
  with Suc.prems have j: "?j < length xs" by linarith
  have "(xs @ zs)[Suc i := (xs @ zs) ! ?j, ?j := (xs @ zs) ! Suc i] =
      xs[Suc i := xs ! ?j, ?j := xs ! Suc i] @ zs"
    using Suc.prems j by (simp add: list_update_append1 nth_append)
  moreover have "i < length (xs[Suc i := xs ! ?j, ?j := xs ! Suc i])"
    using Suc.prems by simp
  ultimately show ?case
    using Suc.IH[of "xs[Suc i := xs ! ?j, ?j := xs ! Suc i]" "stl s"]
    by (simp add: Let_def)
qed

lemma mset_butlast_last:
  "xs \<noteq> [] \<Longrightarrow> mset xs = add_mset (last xs) (mset (butlast xs))"
  by (induction xs) auto

lemma shuffle_loop_Suc_last:
  assumes len: "length arr = Suc (Suc i)"
  shows "fst (shuffle_loop (Suc i) arr s) =
     fst (shuffle_loop i
            (butlast (arr[Suc i := arr ! (shd s mod (Suc i + 1)),
                          shd s mod (Suc i + 1) := arr ! Suc i])) (stl s)) @
       [arr ! (shd s mod (Suc i + 1))]"
proof -
  let ?j = "shd s mod (Suc i + 1)"
  let ?arr = "arr[Suc i := arr ! ?j, ?j := arr ! Suc i]"
  have j: "?j < Suc (Suc i)" by simp
  have l: "length ?arr = Suc (Suc i)" using len by simp
  then have ne: "?arr \<noteq> []" by auto
  have "last ?arr = ?arr ! Suc i"
    using l ne by (simp add: last_conv_nth)
  also have "\<dots> = arr ! ?j"
    using len j by (cases "?j = Suc i") (simp_all add: nth_list_update)
  finally have last: "last ?arr = arr ! ?j" .
  have split: "?arr = butlast ?arr @ [arr ! ?j]"
    using append_butlast_last_id[OF ne] last by simp
  have "fst (shuffle_loop i (butlast ?arr @ [arr ! ?j]) (stl s)) =
      fst (shuffle_loop i (butlast ?arr) (stl s)) @ [arr ! ?j]"
    by (rule shuffle_loop_append) (use len in simp)
  with split have "fst (shuffle_loop i ?arr (stl s)) =
      fst (shuffle_loop i (butlast ?arr) (stl s)) @ [arr ! ?j]"
    by simp
  then show ?thesis by (simp add: Let_def)
qed

lemma swap_butlast_mset:
  assumes len: "length arr = Suc (Suc i)" and d: "d \<le> Suc i"
  shows "mset (butlast (arr[Suc i := arr ! d, d := arr ! Suc i])) = mset arr - {#arr ! d#}"
    and "length (butlast (arr[Suc i := arr ! d, d := arr ! Suc i])) = Suc i"
proof -
  let ?arr = "arr[Suc i := arr ! d, d := arr ! Suc i]"
  have l: "length ?arr = Suc (Suc i)" using len by simp
  then have ne: "?arr \<noteq> []" by auto
  have "last ?arr = ?arr ! Suc i"
    using l ne by (simp add: last_conv_nth)
  also have "\<dots> = arr ! d"
    using len d by (cases "d = Suc i") (simp_all add: nth_list_update)
  finally have last: "last ?arr = arr ! d" .
  have "mset ?arr = mset arr"
    using len d by (intro mset_swap) simp_all
  with mset_butlast_last[OF ne] last
  have e: "mset arr = add_mset (arr ! d) (mset (butlast ?arr))"
    by simp
  show "mset (butlast ?arr) = mset arr - {#arr ! d#}"
    unfolding e by simp
  show "length (butlast ?arr) = Suc i" using l by simp
qed

lemma shuffle_loop_complete:
  "length arr = Suc i \<Longrightarrow> mset ys = mset arr \<Longrightarrow>
     \<exists>ds. valid_draws i ds \<and> fst (shuffle_loop i arr (ds @- s)) = ys"
proof (induction i arbitrary: arr ys)
  case 0
  then obtain a where "arr = [a]" by (cases arr) auto
  with 0 have "ys = [a]" by simp
  with \<open>arr = [a]\<close> show ?case by (intro exI[of _ "[]"]) simp
next
  case (Suc i)
  have lys: "length ys = Suc (Suc i)"
    using Suc.prems by (metis size_mset)
  then have ysne: "ys \<noteq> []" by auto
  have "last ys \<in> set arr"
    using Suc.prems(2) ysne by (metis last_in_set set_mset_mset)
  then obtain d where d: "d < length arr" "arr ! d = last ys"
    by (auto simp add: in_set_conv_nth)
  then have dle: "d \<le> Suc i" using Suc.prems(1) by simp
  let ?arr = "arr[Suc i := arr ! d, d := arr ! Suc i]"
  note sw = swap_butlast_mset[OF Suc.prems(1) dle]
  have "mset (butlast ys) = mset ys - {#last ys#}"
    unfolding mset_butlast_last[OF ysne] by simp
  then have "mset (butlast ys) = mset (butlast ?arr)"
    using sw(1) d(2) Suc.prems(2) by simp
  from Suc.IH[OF sw(2) this] obtain ds where
    ds: "valid_draws i ds" "fst (shuffle_loop i (butlast ?arr) (ds @- s)) = butlast ys"
    by blast
  have "fst (shuffle_loop (Suc i) arr ((d # ds) @- s)) = butlast ys @ [last ys]"
    using shuffle_loop_Suc_last[OF Suc.prems(1), of "(d # ds) @- s"] dle ds(2) d(2)
    by simp
  then have "fst (shuffle_loop (Suc i) arr ((d # ds) @- s)) = ys"
    using ysne by simp
  moreover have "valid_draws (Suc i) (d # ds)" using dle ds(1) by simp
  ultimately show ?case by blast
qed

lemma shuffle_loop_inj:
  "length arr = Suc i \<Longrightarrow> distinct arr \<Longrightarrow> valid_draws i ds \<Longrightarrow> valid_draws i ds' \<Longrightarrow>
     fst (shuffle_loop i arr (ds @- s)) = fst (shuffle_loop i arr (ds' @- s')) \<Longrightarrow> ds = ds'"
proof (induction i arbitrary: arr ds ds' s s')
  case 0
  then show ?case by simp
next
  case (Suc i)
  from Suc.prems(3) obtain d es where ds: "ds = d # es" "d \<le> Suc i" "valid_draws i es"
    by (cases ds) auto
  from Suc.prems(4) obtain d' es' where ds': "ds' = d' # es'" "d' \<le> Suc i" "valid_draws i es'"
    by (cases ds') auto
  let ?a = "arr[Suc i := arr ! d, d := arr ! Suc i]"
  let ?a' = "arr[Suc i := arr ! d', d' := arr ! Suc i]"
  have l: "fst (shuffle_loop (Suc i) arr (ds @- s)) =
      fst (shuffle_loop i (butlast ?a) (es @- s)) @ [arr ! d]"
    using shuffle_loop_Suc_last[OF Suc.prems(1), of "ds @- s"] ds by simp
  have r: "fst (shuffle_loop (Suc i) arr (ds' @- s')) =
      fst (shuffle_loop i (butlast ?a') (es' @- s')) @ [arr ! d']"
    using shuffle_loop_Suc_last[OF Suc.prems(1), of "ds' @- s'"] ds' by simp
  from Suc.prems(5) have "fst (shuffle_loop i (butlast ?a) (es @- s)) @ [arr ! d] =
      fst (shuffle_loop i (butlast ?a') (es' @- s')) @ [arr ! d']"
    unfolding l r .
  then have "fst (shuffle_loop i (butlast ?a) (es @- s)) =
         fst (shuffle_loop i (butlast ?a') (es' @- s')) \<and> arr ! d = arr ! d'"
    by (rule append1_eq_conv[THEN iffD1])
  then have eq: "fst (shuffle_loop i (butlast ?a) (es @- s)) =
         fst (shuffle_loop i (butlast ?a') (es' @- s'))"
    and nth: "arr ! d = arr ! d'"
    by blast+
  from nth Suc.prems(1,2) ds(2) ds'(2) have dd: "d = d'"
    by (simp add: nth_eq_iff_index_eq)
  note sw = swap_butlast_mset[OF Suc.prems(1) ds(2)]
  have "mset ?a = mset arr"
    using Suc.prems(1) ds(2) by (intro mset_swap) simp_all
  then have "distinct ?a"
    using Suc.prems(2) by (metis mset_eq_imp_distinct_iff)
  then have "distinct (butlast ?a)" by (rule distinct_butlast)
  from Suc.IH[OF sw(2) this ds(3) ds'(3) eq[folded dd]] have "es = es'" .
  with dd ds(1) ds'(1) show ?case by simp
qed

lemma valid_draws_Suc:
  "{ds. valid_draws (Suc i) ds} = (\<lambda>(d, ds). d # ds) ` ({..Suc i} \<times> {ds. valid_draws i ds})"
proof (intro set_eqI iffI)
  fix ds assume "ds \<in> {ds. valid_draws (Suc i) ds}"
  then show "ds \<in> (\<lambda>(d, ds). d # ds) ` ({..Suc i} \<times> {ds. valid_draws i ds})"
    by (cases ds) auto
next
  fix ds assume "ds \<in> (\<lambda>(d, ds). d # ds) ` ({..Suc i} \<times> {ds. valid_draws i ds})"
  then show "ds \<in> {ds. valid_draws (Suc i) ds}" by auto
qed

lemma card_valid_draws: "card {ds. valid_draws i ds} = fact (Suc i)"
proof (induction i)
  case 0
  show ?case by simp
next
  case (Suc i)
  have "inj_on (\<lambda>(d, ds). d # ds) ({..Suc i} \<times> {ds. valid_draws i ds})"
    by (auto simp add: inj_on_def)
  then have "card {ds. valid_draws (Suc i) ds} = card ({..Suc i} \<times> {ds. valid_draws i ds})"
    unfolding valid_draws_Suc by (rule card_image)
  also have "\<dots> = Suc (Suc i) * fact (Suc i)"
    unfolding card_cartesian_product Suc.IH by simp
  finally show ?case by simp
qed

lemma shuffleArray_complete:
  assumes "mset ys = mset array"
  shows "\<exists>ds. valid_draws (length array - 1) ds \<and> fst (shuffleArray array (ds @- s)) = ys"
proof (cases "array = []")
  case True
  with assms show ?thesis by (intro exI[of _ "[]"]) (simp add: shuffleArray_def)
next
  case False
  then have "length array = Suc (length array - 1)" by simp
  from shuffle_loop_complete[OF this assms] show ?thesis
    unfolding shuffleArray_def .
qed

lemma shuffleArray_inj:
  assumes "distinct array"
    and "valid_draws (length array - 1) ds" and "valid_draws (length array - 1) ds'"
    and "fst (shuffleArray array (ds @- s)) = fst (shuffleArray array (ds' @- s'))"
  shows "ds = ds'"
proof (cases "array = []")
  case True
  with assms(2,3) show ?thesis by simp
next
  case False
  then have "length array = Suc (length array - 1)" by simp
  from shuffle_loop_inj[OF this assms(1-3) assms(4)[unfolded shuffleArray_def]]
  show ?thesis .
qed

lemma card_shuffle_draws: "card {ds. valid_draws (length array - 1) ds} = fact (length array)"
proof (cases "array = []")
  case True
  then show ?thesis by simp
next
  case False
  then have e: "Suc (length array - 1) = length array" by simp
  show ?thesis using card_valid_draws[of "length array - 1"] unfolding e .
qed

lemma pickRandom_prefix:
  "fst (pickRandom array n s) = take (nat (max 0 n)) (fst (shuffleArray array s))"
  by (simp add: pickRandom_def split_beta Let_def shuffleArray_def)

lemma shuffle_loop_map:
  "i < length xs \<or> i = 0 \<Longrightarrow>
     fst (shuffle_loop i (map f xs) s) = map f (fst (shuffle_loop i xs s))"
proof (induction i arbitrary: xs s)
  case 0
  show ?case by simp
next
  case (Suc i)
  let ?j = "shd s mod (Suc i + 1)"
  from Suc.prems have i: "Suc i < length xs" by simp
  have "?j < Suc (Suc i)" by simp
  with i have j: "?j < length xs" by linarith
  have "(map f xs)[Suc i := map f xs ! ?j, ?j := map f xs ! Suc i] =
      map f (xs[Suc i := xs ! ?j, ?j := xs ! Suc i])"
    using i j by (simp add: map_update)
  moreover have "i < length (xs[Suc i := xs ! ?j, ?j := xs ! Suc i])"
    using i by simp
  ultimately show ?case
    using Suc.IH[of "xs[Suc i := xs ! ?j, ?j := xs ! Suc i]" "stl s"]
    by (simp add: Let_def)
qed

lemma shuffleArray_by_positions:
  "fst (shuffleArray array s) = map ((!) array) (fst (shuffleArray [0..<length array] s))"
proof -
  have "fst (shuffle_loop (length array - 1) (map ((!) array) [0..<length array]) s) =
      map ((!) array) (fst (shuffle_loop (length array - 1) [0..<length array] s))"
    by (rule shuffle_loop_map) (cases array; simp)
  then show ?thesis by (simp add: shuffleArray_def map_nth)
qed

lemma valid_draws_of: "valid_draws i (draws_of i s)"
  by (induction i arbitrary: s) simp_all

lemma draws_of_valid: "valid_draws i ds \<Longrightarrow> draws_of i (ds @- s) = ds"
proof (induction i arbitrary: ds s)
  case 0
  then show ?case by simp
next
  case (Suc i)
  then obtain d es where ds: "ds = d # es" "d \<le> Suc i" "valid_draws i es"
    by (cases ds) auto
  with Suc.IH[of es s] show ?case by simp
qed

lemma shuffle_loop_draws:
  "fst (shuffle_loop i arr s) = fst (shuffle_loop i arr (draws_of i s @- s'))"
proof (induction i arbitrary: arr s)
  case 0
  show ?case by simp
next
  case (Suc i)
  let ?j = "shd s mod (Suc i + 1)"
  have "fst (shuffle_loop i (arr[Suc i := arr ! ?j, ?j := arr ! Suc i]) (stl s)) =
      fst (shuffle_loop i (arr[Suc i := arr ! ?j, ?j := arr ! Suc i])
             (draws_of i (stl s) @- s'))"
    by (rule Suc.IH)
  then show ?case by (simp add: Let_def)
qed

lemma shuffleArray_draws:
  "fst (shuffleArray array s) =
     fst (shuffleArray array (draws_of (length array - 1) s @- s'))"
  unfolding shuffleArray_def by (rule shuffle_loop_draws)

lemma shuffleArray_same_iff:
  assumes "distinct array"
  shows "(fst (shuffleArray array s) = fst (shuffleArray array s')) =
     (draws_of (length array - 1) s = draws_of (length array - 1) s')"
proof
  assume eq: "fst (shuffleArray array s) = fst (shuffleArray array s')"
  have "fst (shuffleArray array (draws_of (length array - 1) s @- s)) =
      fst (shuffleArray array (draws_of (length array - 1) s' @- s'))"
    using eq shuffleArray_draws[of array s s] shuffleArray_draws[of array s' s'] by simp
  with assms show "draws_of (length array - 1) s = draws_of (length array - 1) s'"
    by (intro shuffleArray_inj[of array _ _ s s']) (simp_all add: valid_draws_of)
next
  assume "draws_of (length array - 1) s = draws_of (length array - 1) s'"
  then show "fst (shuffleArray array s) = fst (shuffleArray array s')"
    using shuffleArray_draws[of array s s] shuffleArray_draws[of array s' s] by simp
qed

text \<open>
  Claim C8. \<open>shuffleArray\<close> returns a rearrangement of its argument: the same elements
  with the same multiplicities. \<open>pickRandom\<close> takes the prefix of the shuffled array, of
  length \<open>min (max 0 n)\<close> of the length of the array. The shuffle moves positions:
  the result is the argument read at the shuffled list of its positions.

  The draws that the loop makes from any supply, \<open>draws_of\<close>, are valid draws (the
  draw for \<open>i\<close> is in \<open>0..i\<close>), the result on the supply is the result on these draws
  alone, whatever follows them, and every list of valid draws is the draws of a supply.
  On an array of distinct elements, as the list of the positions is, two supplies give
  the same result exactly when the loop makes the same draws from them, and every
  rearrangement is the result of exactly one list of valid draws; the number of these
  lists is the factorial of the length. So when each draw of the loop is uniform on
  its range \<open>0..i\<close> and independent of the others, every list of draws has the
  probability \<open>1 / n!\<close>, and so has every permutation.
\<close>

theorem shuffle_permutation:
  "mset (fst (shuffleArray array s)) = mset array \<and>
   fst (pickRandom array n s) = take (nat (max 0 n)) (fst (shuffleArray array s)) \<and>
   length (fst (pickRandom array n s)) = min (nat (max 0 n)) (length array) \<and>
   fst (shuffleArray array s) = map ((!) array) (fst (shuffleArray [0..<length array] s)) \<and>
   valid_draws (length array - 1) (draws_of (length array - 1) s) \<and>
   fst (shuffleArray array s) =
     fst (shuffleArray array (draws_of (length array - 1) s @- s')) \<and>
   (valid_draws (length array - 1) ds \<longrightarrow> draws_of (length array - 1) (ds @- s) = ds) \<and>
   (distinct array \<longrightarrow>
      (fst (shuffleArray array s) = fst (shuffleArray array s')) =
      (draws_of (length array - 1) s = draws_of (length array - 1) s')) \<and>
   (distinct array \<and> mset ys = mset array \<longrightarrow>
      (\<exists>!ds. valid_draws (length array - 1) ds \<and>
         fst (shuffleArray array (ds @- s)) = ys)) \<and>
   card {ds. valid_draws (length array - 1) ds} = fact (length array)"
proof (intro conjI impI)
  show "mset (fst (shuffleArray array s)) = mset array"
    by (rule shuffleArray_mset)
  show "fst (pickRandom array n s) = take (nat (max 0 n)) (fst (shuffleArray array s))"
    by (rule pickRandom_prefix)
  show "length (fst (pickRandom array n s)) = min (nat (max 0 n)) (length array)"
    by (rule pickRandom_length)
  show "fst (shuffleArray array s) =
      map ((!) array) (fst (shuffleArray [0..<length array] s))"
    by (rule shuffleArray_by_positions)
  show "valid_draws (length array - 1) (draws_of (length array - 1) s)"
    by (rule valid_draws_of)
  show "fst (shuffleArray array s) =
      fst (shuffleArray array (draws_of (length array - 1) s @- s'))"
    by (rule shuffleArray_draws)
  show "card {ds. valid_draws (length array - 1) ds} = fact (length array)"
    by (rule card_shuffle_draws)
next
  assume "valid_draws (length array - 1) ds"
  then show "draws_of (length array - 1) (ds @- s) = ds"
    by (rule draws_of_valid)
next
  assume "distinct array"
  then show "(fst (shuffleArray array s) = fst (shuffleArray array s')) =
      (draws_of (length array - 1) s = draws_of (length array - 1) s')"
    by (rule shuffleArray_same_iff)
next
  assume a: "distinct array \<and> mset ys = mset array"
  then obtain ds where ds: "valid_draws (length array - 1) ds"
      "fst (shuffleArray array (ds @- s)) = ys"
    using shuffleArray_complete[of ys array s] by blast
  show "\<exists>!ds. valid_draws (length array - 1) ds \<and> fst (shuffleArray array (ds @- s)) = ys"
  proof (rule ex1I[of _ ds])
    show "valid_draws (length array - 1) ds \<and> fst (shuffleArray array (ds @- s)) = ys"
      using ds by simp
  next
    fix es
    assume "valid_draws (length array - 1) es \<and> fst (shuffleArray array (es @- s)) = ys"
    with ds a show "es = ds"
      using shuffleArray_inj[of array es ds s s] by simp
  qed
qed

text \<open>
  Three elements: the supply 4, 5, ... makes the draws 1 and 1, and the permutation
  that puts the last first comes from the draws 1 and 0 alone.
\<close>

theorem shuffle_permutation_witness:
  "distinct [''a'', ''b'', ''c''] \<and> mset [''c'', ''a'', ''b''] = mset [''a'', ''b'', ''c''] \<and>
   valid_draws (length [''a'', ''b'', ''c''] - 1) [1, 0] \<and>
   draws_of (length [''a'', ''b'', ''c''] - 1) ([1, 0] @- fromN 5) = [1, 0] \<and>
   draws_of (length [''a'', ''b'', ''c''] - 1) (fromN 4) = [1, 1] \<and>
   fst (shuffleArray [''a'', ''b'', ''c''] (fromN 4)) =
     fst (shuffleArray [''a'', ''b'', ''c''] ([1, 1] @- sconst 0)) \<and>
   (\<exists>!ds. valid_draws (length [''a'', ''b'', ''c''] - 1) ds \<and>
      fst (shuffleArray [''a'', ''b'', ''c''] (ds @- fromN 4)) = [''c'', ''a'', ''b''])"
proof -
  have h: "distinct [''a'', ''b'', ''c''] \<and> mset [''c'', ''a'', ''b''] = mset [''a'', ''b'', ''c'']"
    by simp
  have v: "valid_draws (length [''a'', ''b'', ''c''] - 1) [1, 0]"
    by (simp add: numeral_2_eq_2)
  have m: "(5::nat) mod Suc (Suc 0) = Suc 0" by arith
  have d: "draws_of (length [''a'', ''b'', ''c''] - 1) (fromN 4) = [1, 1]"
    by (simp add: numeral_2_eq_2 m)
  note t = shuffle_permutation
    [of "[''a'', ''b'', ''c'']" "fromN 4" 0 "sconst 0" "[1, 0]" "[''c'', ''a'', ''b'']"]
  have "draws_of (length [''a'', ''b'', ''c''] - 1) ([1, 0] @- fromN 5) = [1, 0]"
    using shuffle_permutation
      [of "[''a'', ''b'', ''c'']" "fromN 5" 0 "sconst 0" "[1, 0]" "[''c'', ''a'', ''b'']"] v
    by blast
  moreover have "fst (shuffleArray [''a'', ''b'', ''c''] (fromN 4)) =
     fst (shuffleArray [''a'', ''b'', ''c''] ([1, 1] @- sconst 0))"
    using t d by metis
  moreover have "\<exists>!ds. valid_draws (length [''a'', ''b'', ''c''] - 1) ds \<and>
      fst (shuffleArray [''a'', ''b'', ''c''] (ds @- fromN 4)) = [''c'', ''a'', ''b'']"
    using t h by blast
  ultimately show ?thesis using h v d by blast
qed

lemma shuffle_by_draws_example:
  "fst (shuffleArray [''a'', ''b'', ''c''] ([1, 0] @- sconst 0)) = [''c'', ''a'', ''b'']"
  by (simp add: shuffleArray_def)

subsection \<open>The store\<close>

lemma shuffle_loop_st_eq:
  "arr < length h \<Longrightarrow>
     shuffle_loop_st i arr h s =
       (h[arr := fst (shuffle_loop i (h ! arr) s)], snd (shuffle_loop i (h ! arr) s))"
proof (induction i arbitrary: h s)
  case 0
  show ?case by simp
next
  case (Suc i)
  let ?j = "shd s mod (Suc i + 1)"
  let ?a = "(h ! arr)[Suc i := h ! arr ! ?j, ?j := h ! arr ! Suc i]"
  have "shuffle_loop_st i arr (h[arr := ?a]) (stl s) =
      ((h[arr := ?a])[arr := fst (shuffle_loop i ((h[arr := ?a]) ! arr) (stl s))],
       snd (shuffle_loop i ((h[arr := ?a]) ! arr) (stl s)))"
    using Suc.prems by (intro Suc.IH) simp
  then show ?case using Suc.prems by (simp add: Let_def)
qed

lemma shuffleArray_st_eq:
  "shuffleArray_st array h s =
     (length h, h @ [fst (shuffleArray (h ! array) s)], snd (shuffleArray (h ! array) s))"
  by (simp add: shuffleArray_st_def new_array_def shuffle_loop_st_eq shuffleArray_def)

lemma pickRandom_st_eq:
  "pickRandom_st array n h s =
     (if h ! array = [] then (length h, h @ [[]], s)
      else (Suc (length h),
            h @ [fst (shuffleArray (h ! array) s), fst (pickRandom (h ! array) n s)],
            snd (pickRandom (h ! array) n s)))"
  by (simp add: pickRandom_st_def new_array_def shuffleArray_st_eq pickRandom_def
      split_beta Let_def nth_append)

lemma pickUnique_st_eq:
  "take (length h) (fst (snd (pickUnique_st qbm mark cnt (h, used, s)))) = h"
  "length h \<le> fst (pickUnique_st qbm mark cnt (h, used, s))"
  "fst (pickUnique_st qbm mark cnt (h, used, s)) <
     length (fst (snd (pickUnique_st qbm mark cnt (h, used, s))))"
  "(fst (snd (pickUnique_st qbm mark cnt (h, used, s))) !
       fst (pickUnique_st qbm mark cnt (h, used, s)),
     snd (snd (pickUnique_st qbm mark cnt (h, used, s)))) =
   pickUnique (pure_of h qbm) mark cnt (used, s)"
  by (auto simp add: pickUnique_st_def pickRandom_st_eq new_array_def pickUnique_def
      pure_of_def pool_of_def pickRandom_def split_beta Let_def nth_append
      split: option.splits)


lemma pickUnique_st_state:
  "take (length (fst st)) (fst (snd (pickUnique_st qbm mark cnt st))) = fst st"
  "length (fst st) \<le> fst (pickUnique_st qbm mark cnt st)"
  "fst (pickUnique_st qbm mark cnt st) < length (fst (snd (pickUnique_st qbm mark cnt st)))"
  "(fst (snd (pickUnique_st qbm mark cnt st)) ! fst (pickUnique_st qbm mark cnt st),
     snd (snd (pickUnique_st qbm mark cnt st))) =
   pickUnique (pure_of (fst st) qbm) mark cnt (snd st)"
  using pickUnique_st_eq[where h = "fst st" and qbm = qbm and mark = mark and cnt = cnt
      and used = "fst (snd st)" and s = "snd (snd st)"]
  by simp_all

lemma nth_prefix: "take (length h) h' = h \<Longrightarrow> a < length h \<Longrightarrow> h' ! a = h ! a"
  by (metis nth_take)

lemma prefix_length:
  assumes "take (length h) h' = h"
  shows "length h \<le> length h'"
proof -
  have "length (take (length h) h') = length h" using assms by simp
  then show ?thesis by simp
qed

lemma prefix_trans:
  assumes "take (length a) b = a" and "take (length b) c = b"
  shows "take (length a) c = a"
proof -
  have "take (length a) c = take (length a) (take (length b) c)"
    using prefix_length[OF assms(1)] by (simp add: min_def)
  then show ?thesis using assms by simp
qed

lemma pure_of_prefix:
  assumes "take (length h) h' = h" and "\<forall>k a. qbm k = Some a \<longrightarrow> a < length h"
  shows "pure_of h' qbm = pure_of h qbm"
proof
  fix k
  show "pure_of h' qbm k = pure_of h qbm k"
    using assms by (cases "qbm k") (simp_all add: pure_of_def nth_prefix)
qed

lemma qByMarks_st_eq:
  "allQuestions < length h \<Longrightarrow>
     qByMarks_st allQuestions h =
       ([2 \<mapsto> length h, 3 \<mapsto> Suc (length h), 5 \<mapsto> Suc (Suc (length h))],
        h @ [filter (\<lambda>q. marks q = 2) (h ! allQuestions),
             filter (\<lambda>q. marks q = 3) (h ! allQuestions),
             filter (\<lambda>q. marks q = 5) (h ! allQuestions)])"
  by (simp add: qByMarks_st_def new_array_def nth_append)

lemma allocate_st_unfold:
  "allocate_st qbm h s =
     (let r1 = pickUnique_st qbm 2 10 (h, {}, s);
          r2 = pickUnique_st qbm 2 5 (snd r1);
          r3 = pickUnique_st qbm 3 5 (snd r2);
          r4 = pickUnique_st qbm 5 7 (snd r3)
      in \<lparr>sectionA_at = fst r1, sectionB_part1_at = fst r2, sectionB_part2_at = fst r3,
          sectionC_at = fst r4, store_end = fst (snd r4), usedIds_st_end = fst (snd (snd r4)),
          rand_st_end = snd (snd (snd r4))\<rparr>)"
  by (simp add: allocate_st_def sectionA_need_def sectionB_need_part1_def
      sectionB_need_part2_def sectionC_need_def split_beta Let_def)

lemma allocate_st_eq:
  assumes valid: "\<forall>k a. qbm k = Some a \<longrightarrow> a < length h"
  shows "take (length h) (store_end (allocate_st qbm h s)) = h"
    and "store_end (allocate_st qbm h s) ! sectionA_at (allocate_st qbm h s) =
      sectionA (allocate (pure_of h qbm) s)"
    and "store_end (allocate_st qbm h s) ! sectionB_part1_at (allocate_st qbm h s) =
      sectionB_part1 (allocate (pure_of h qbm) s)"
    and "store_end (allocate_st qbm h s) ! sectionB_part2_at (allocate_st qbm h s) =
      sectionB_part2 (allocate (pure_of h qbm) s)"
    and "store_end (allocate_st qbm h s) ! sectionC_at (allocate_st qbm h s) =
      sectionC (allocate (pure_of h qbm) s)"
    and "length h \<le> sectionA_at (allocate_st qbm h s)"
    and "length h \<le> sectionB_part1_at (allocate_st qbm h s)"
    and "length h \<le> sectionB_part2_at (allocate_st qbm h s)"
    and "length h \<le> sectionC_at (allocate_st qbm h s)"
proof -
  define r1 where "r1 = pickUnique_st qbm 2 10 (h, {}, s)"
  define r2 where "r2 = pickUnique_st qbm 2 5 (snd r1)"
  define r3 where "r3 = pickUnique_st qbm 3 5 (snd r2)"
  define r4 where "r4 = pickUnique_st qbm 5 7 (snd r3)"
  define h1 where "h1 = fst (snd r1)"
  define h2 where "h2 = fst (snd r2)"
  define h3 where "h3 = fst (snd r3)"
  define h4 where "h4 = fst (snd r4)"
  define Q where "Q = pure_of h qbm"
  define p1 where "p1 = pickUnique Q 2 10 ({}, s)"
  define p2 where "p2 = pickUnique Q 2 5 (snd p1)"
  define p3 where "p3 = pickUnique Q 3 5 (snd p2)"
  define p4 where "p4 = pickUnique Q 5 7 (snd p3)"
  note s1 = pickUnique_st_state[where st = "(h, {}, s)" and qbm = qbm and mark = 2 and cnt = 10,
      folded r1_def h1_def, simplified]
  note s2 = pickUnique_st_state[where st = "snd r1" and qbm = qbm and mark = 2 and cnt = 5,
      folded r2_def h1_def h2_def]
  note s3 = pickUnique_st_state[where st = "snd r2" and qbm = qbm and mark = 3 and cnt = 5,
      folded r3_def h2_def h3_def]
  note s4 = pickUnique_st_state[where st = "snd r3" and qbm = qbm and mark = 5 and cnt = 7,
      folded r4_def h3_def h4_def]
  have pre1: "take (length h) h1 = h" by (rule s1(1))
  have pre2: "take (length h) h2 = h" using pre1 s2(1) by (rule prefix_trans)
  have pre3: "take (length h) h3 = h" using pre2 s3(1) by (rule prefix_trans)
  have pre4: "take (length h) h4 = h" using pre3 s4(1) by (rule prefix_trans)
  have q1: "pure_of h1 qbm = Q" unfolding Q_def using pre1 valid by (rule pure_of_prefix)
  have q2: "pure_of h2 qbm = Q" unfolding Q_def using pre2 valid by (rule pure_of_prefix)
  have q3: "pure_of h3 qbm = Q" unfolding Q_def using pre3 valid by (rule pure_of_prefix)
  have e1: "(h1 ! fst r1, snd (snd r1)) = p1"
    using s1(4) by (simp add: p1_def Q_def)
  have f1: "h1 ! fst r1 = fst p1" and t1: "snd (snd r1) = snd p1"
    using e1[symmetric] by simp_all
  have e2: "(h2 ! fst r2, snd (snd r2)) = p2"
    using s2(4) by (simp add: p2_def q1 t1)
  have f2: "h2 ! fst r2 = fst p2" and t2: "snd (snd r2) = snd p2"
    using e2[symmetric] by simp_all
  have e3: "(h3 ! fst r3, snd (snd r3)) = p3"
    using s3(4) by (simp add: p3_def q2 t2)
  have f3: "h3 ! fst r3 = fst p3" and t3: "snd (snd r3) = snd p3"
    using e3[symmetric] by simp_all
  have e4: "(h4 ! fst r4, snd (snd r4)) = p4"
    using s4(4) by (simp add: p4_def q3 t3)
  have f4: "h4 ! fst r4 = fst p4"
    using e4[symmetric] by simp
  have pre34: "take (length h3) h4 = h3" by (rule s4(1))
  have pre24: "take (length h2) h4 = h2" using s3(1) pre34 by (rule prefix_trans)
  have pre14: "take (length h1) h4 = h1" using s2(1) pre24 by (rule prefix_trans)
  have g1: "h4 ! fst r1 = fst p1"
    using nth_prefix[OF pre14 s1(3)] f1 by simp
  have g2: "h4 ! fst r2 = fst p2"
    using nth_prefix[OF pre24 s2(3)] f2 by simp
  have g3: "h4 ! fst r3 = fst p3"
    using nth_prefix[OF pre34 s3(3)] f3 by simp
  have st: "allocate_st qbm h s =
      \<lparr>sectionA_at = fst r1, sectionB_part1_at = fst r2, sectionB_part2_at = fst r3,
       sectionC_at = fst r4, store_end = h4, usedIds_st_end = fst (snd (snd r4)),
       rand_st_end = snd (snd (snd r4))\<rparr>"
    by (simp add: allocate_st_unfold Let_def r1_def r2_def r3_def r4_def h4_def)
  have pu: "allocate (pure_of h qbm) s =
      \<lparr>sectionA = fst p1, sectionB_part1 = fst p2, sectionB_part2 = fst p3,
       sectionC = fst p4, usedIds_end = fst (snd p4), rand_end = snd (snd p4)\<rparr>"
    by (simp add: allocate_unfold Let_def p1_def p2_def p3_def p4_def Q_def)
  show "take (length h) (store_end (allocate_st qbm h s)) = h"
    using pre4 by (simp add: st)
  show "store_end (allocate_st qbm h s) ! sectionA_at (allocate_st qbm h s) =
      sectionA (allocate (pure_of h qbm) s)"
    using g1 by (simp add: st pu)
  show "store_end (allocate_st qbm h s) ! sectionB_part1_at (allocate_st qbm h s) =
      sectionB_part1 (allocate (pure_of h qbm) s)"
    using g2 by (simp add: st pu)
  show "store_end (allocate_st qbm h s) ! sectionB_part2_at (allocate_st qbm h s) =
      sectionB_part2 (allocate (pure_of h qbm) s)"
    using g3 by (simp add: st pu)
  show "store_end (allocate_st qbm h s) ! sectionC_at (allocate_st qbm h s) =
      sectionC (allocate (pure_of h qbm) s)"
    using f4 by (simp add: st pu)
  show "length h \<le> sectionA_at (allocate_st qbm h s)"
    using s1(2) by (simp add: st)
  show "length h \<le> sectionB_part1_at (allocate_st qbm h s)"
    using s2(2) prefix_length[OF pre1] by (simp add: st h1_def)
  show "length h \<le> sectionB_part2_at (allocate_st qbm h s)"
    using s3(2) prefix_length[OF pre2] by (simp add: st h2_def)
  show "length h \<le> sectionC_at (allocate_st qbm h s)"
    using s4(2) prefix_length[OF pre3] by (simp add: st h3_def)
qed

lemma qByMarks_st_pure:
  assumes "allQuestions < length h"
  shows "pure_of (snd (qByMarks_st allQuestions h)) (fst (qByMarks_st allQuestions h)) =
      qByMarks (h ! allQuestions)"
    and "take (length h) (snd (qByMarks_st allQuestions h)) = h"
    and "\<forall>k a. fst (qByMarks_st allQuestions h) k = Some a \<longrightarrow>
          a < length (snd (qByMarks_st allQuestions h))"
proof -
  note e = qByMarks_st_eq[OF assms]
  show "pure_of (snd (qByMarks_st allQuestions h)) (fst (qByMarks_st allQuestions h)) =
      qByMarks (h ! allQuestions)"
    unfolding e by (rule ext) (simp add: pure_of_def qByMarks_def nth_append)
  show "take (length h) (snd (qByMarks_st allQuestions h)) = h"
    unfolding e by simp
  show "\<forall>k a. fst (qByMarks_st allQuestions h) k = Some a \<longrightarrow>
      a < length (snd (qByMarks_st allQuestions h))"
    unfolding e by (auto split: if_splits)
qed

lemma bucket_length_after_run:
  assumes "allQuestions < length h"
  shows "bucket_length
      (pure_of (store_end (allocate_st (fst (qByMarks_st allQuestions h))
                  (snd (qByMarks_st allQuestions h)) s))
         (fst (qByMarks_st allQuestions h))) k =
    bucket_length (qByMarks (h ! allQuestions)) k"
proof -
  note q = qByMarks_st_pure[OF assms]
  note a = allocate_st_eq(1)[OF q(3), of s]
  have "pure_of (store_end (allocate_st (fst (qByMarks_st allQuestions h))
                  (snd (qByMarks_st allQuestions h)) s))
         (fst (qByMarks_st allQuestions h)) =
      pure_of (snd (qByMarks_st allQuestions h)) (fst (qByMarks_st allQuestions h))"
    using a q(3) by (rule pure_of_prefix)
  then show ?thesis by (simp add: q(1))
qed

text \<open>
  Claim C6. For every collection that is not empty and every random supply the route
  answers with a paper, and the \<open>available\<close> entry of its report for each of the keys
  2, 3 and 5 is the length of the whole bucket of that key, which is the number of
  questions of the input with that number of marks. Neither depends on the random
  supply or on what the four calls have drawn. Over the store of arrays the same
  holds of the lengths that are read after the four calls of the run: the array of a
  bucket has then the length it had when it was built from the input.
\<close>

theorem report_pool_sizes:
  "(allQuestions \<noteq> [] \<longrightarrow>
      (\<exists>paper. generate (Found allQuestions) s = Json200 paper \<and>
         available (paper_report paper) =
           \<lparr>mark2 = length (pool_of (qByMarks allQuestions) 2),
            mark3 = length (pool_of (qByMarks allQuestions) 3),
            mark5 = length (pool_of (qByMarks allQuestions) 5)\<rparr> \<and>
         available (paper_report paper) =
           \<lparr>mark2 = length [q \<leftarrow> allQuestions. marks q = 2],
            mark3 = length [q \<leftarrow> allQuestions. marks q = 3],
            mark5 = length [q \<leftarrow> allQuestions. marks q = 5]\<rparr>)) \<and>
   (input < length h \<longrightarrow>
      (let b = fst (qByMarks_st input h);
           h1 = snd (qByMarks_st input h);
           h2 = store_end (allocate_st b h1 s)
       in bucket_length (pure_of h2 b) 2 = Some (length [q \<leftarrow> h ! input. marks q = 2]) \<and>
          bucket_length (pure_of h2 b) 3 = Some (length [q \<leftarrow> h ! input. marks q = 3]) \<and>
          bucket_length (pure_of h2 b) 5 = Some (length [q \<leftarrow> h ! input. marks q = 5])))"
proof (intro conjI impI)
  assume "allQuestions \<noteq> []"
  then show "\<exists>paper. generate (Found allQuestions) s = Json200 paper \<and>
         available (paper_report paper) =
           \<lparr>mark2 = length (pool_of (qByMarks allQuestions) 2),
            mark3 = length (pool_of (qByMarks allQuestions) 3),
            mark5 = length (pool_of (qByMarks allQuestions) 5)\<rparr> \<and>
         available (paper_report paper) =
           \<lparr>mark2 = length [q \<leftarrow> allQuestions. marks q = 2],
            mark3 = length [q \<leftarrow> allQuestions. marks q = 3],
            mark5 = length [q \<leftarrow> allQuestions. marks q = 5]\<rparr>"
    by (simp add: generate_Found Let_def make_report_qByMarks pool_of_qByMarks)
next
  assume a: "input < length h"
  note e = bucket_length_after_run[OF a, of s]
  show "let b = fst (qByMarks_st input h);
           h1 = snd (qByMarks_st input h);
           h2 = store_end (allocate_st b h1 s)
       in bucket_length (pure_of h2 b) 2 = Some (length [q \<leftarrow> h ! input. marks q = 2]) \<and>
          bucket_length (pure_of h2 b) 3 = Some (length [q \<leftarrow> h ! input. marks q = 3]) \<and>
          bucket_length (pure_of h2 b) 5 = Some (length [q \<leftarrow> h ! input. marks q = 5])"
    unfolding Let_def e
    by (simp add: bucket_length_def qByMarks_def)
qed

text \<open>Two questions of 2 marks and one of 5, in a store with the input alone.\<close>

theorem report_pool_sizes_witness:
  "[\<lparr>qid = ''a'', marks = 2\<rparr>, \<lparr>qid = ''b'', marks = 2\<rparr>, \<lparr>qid = ''c'', marks = 5\<rparr>] \<noteq> [] \<and>
   (0::nat) < length [[\<lparr>qid = ''a'', marks = 2\<rparr>, \<lparr>qid = ''b'', marks = 2\<rparr>,
                       \<lparr>qid = ''c'', marks = 5\<rparr>]] \<and>
   (\<exists>paper.
      generate (Found [\<lparr>qid = ''a'', marks = 2\<rparr>, \<lparr>qid = ''b'', marks = 2\<rparr>,
                       \<lparr>qid = ''c'', marks = 5\<rparr>]) (sconst 0) = Json200 paper \<and>
      available (paper_report paper) = \<lparr>mark2 = 2, mark3 = 0, mark5 = 1\<rparr>) \<and>
   bucket_length
     (pure_of
        (store_end (allocate_st
           (fst (qByMarks_st 0 [[\<lparr>qid = ''a'', marks = 2\<rparr>, \<lparr>qid = ''b'', marks = 2\<rparr>,
                                 \<lparr>qid = ''c'', marks = 5\<rparr>]]))
           (snd (qByMarks_st 0 [[\<lparr>qid = ''a'', marks = 2\<rparr>, \<lparr>qid = ''b'', marks = 2\<rparr>,
                                 \<lparr>qid = ''c'', marks = 5\<rparr>]]))
           (sconst 0)))
        (fst (qByMarks_st 0 [[\<lparr>qid = ''a'', marks = 2\<rparr>, \<lparr>qid = ''b'', marks = 2\<rparr>,
                              \<lparr>qid = ''c'', marks = 5\<rparr>]]))) 2 = Some 2"
  using report_pool_sizes
    [of "[\<lparr>qid = ''a'', marks = 2\<rparr>, \<lparr>qid = ''b'', marks = 2\<rparr>, \<lparr>qid = ''c'', marks = 5\<rparr>]"
      "sconst 0" 0
      "[[\<lparr>qid = ''a'', marks = 2\<rparr>, \<lparr>qid = ''b'', marks = 2\<rparr>, \<lparr>qid = ''c'', marks = 5\<rparr>]]"]
  by (auto simp add: numeral_2_eq_2 Let_def)

text \<open>
  Claim C10. Over the store of arrays: \<open>shuffleArray\<close> leaves its argument array as it
  was and returns another array, which holds the shuffle that the function on values
  computes; it leaves every array that existed before the call as it was. So does
  \<open>pickUnique\<close>, whose result is a new array. After the grouping and the four calls of
  a run the input array is as before the run, every array that existed after the
  grouping is unchanged, the bucket map gives the same buckets, which are those of the
  grouping on values, and the four parts are those of the run on values.
\<close>

theorem inputs_not_mutated:
  assumes "array < length h" and "allQuestions < length h"
  shows
    "fst (snd (shuffleArray_st array h s)) ! array = h ! array \<and>
     fst (shuffleArray_st array h s) \<noteq> array \<and>
     take (length h) (fst (snd (shuffleArray_st array h s))) = h \<and>
     fst (snd (shuffleArray_st array h s)) ! fst (shuffleArray_st array h s) =
       fst (shuffleArray (h ! array) s) \<and>
     take (length h) (fst (snd (pickUnique_st qbm mark cnt (h, used, s)))) = h \<and>
     length h \<le> fst (pickUnique_st qbm mark cnt (h, used, s)) \<and>
     (let b = fst (qByMarks_st allQuestions h);
          h1 = snd (qByMarks_st allQuestions h);
          p = allocate_st b h1 s;
          h2 = store_end p
      in h2 ! allQuestions = h ! allQuestions \<and>
         take (length h1) h2 = h1 \<and>
         pure_of h2 b = pure_of h1 b \<and>
         pure_of h1 b = qByMarks (h ! allQuestions) \<and>
         h2 ! sectionA_at p = sectionA (allocate (qByMarks (h ! allQuestions)) s) \<and>
         h2 ! sectionB_part1_at p = sectionB_part1 (allocate (qByMarks (h ! allQuestions)) s) \<and>
         h2 ! sectionB_part2_at p = sectionB_part2 (allocate (qByMarks (h ! allQuestions)) s) \<and>
         h2 ! sectionC_at p = sectionC (allocate (qByMarks (h ! allQuestions)) s))"
proof -
  have sh: "fst (snd (shuffleArray_st array h s)) ! array = h ! array"
    "fst (shuffleArray_st array h s) \<noteq> array"
    "take (length h) (fst (snd (shuffleArray_st array h s))) = h"
    "fst (snd (shuffleArray_st array h s)) ! fst (shuffleArray_st array h s) =
       fst (shuffleArray (h ! array) s)"
    using assms(1) by (simp_all add: shuffleArray_st_eq nth_append)
  note pu = pickUnique_st_eq(1,2)[of h qbm mark cnt used s]
  define b where "b = fst (qByMarks_st allQuestions h)"
  define h1 where "h1 = snd (qByMarks_st allQuestions h)"
  define p where "p = allocate_st b h1 s"
  define h2 where "h2 = store_end p"
  note q = qByMarks_st_pure[OF assms(2), folded b_def h1_def]
  note valid = q(3)
  note a = allocate_st_eq[of b h1 s, OF valid, folded p_def h2_def, unfolded q(1)]
  have "h2 ! allQuestions = h1 ! allQuestions"
    using a(1) assms(2) prefix_length[OF q(2)] by (intro nth_prefix) simp_all
  also have "\<dots> = h ! allQuestions"
    using q(2) assms(2) by (rule nth_prefix)
  finally have inp: "h2 ! allQuestions = h ! allQuestions" .
  have same: "pure_of h2 b = pure_of h1 b"
    using a(1) valid by (rule pure_of_prefix)
  have run: "h2 ! allQuestions = h ! allQuestions \<and>
         take (length h1) h2 = h1 \<and>
         pure_of h2 b = pure_of h1 b \<and>
         pure_of h1 b = qByMarks (h ! allQuestions) \<and>
         h2 ! sectionA_at p = sectionA (allocate (qByMarks (h ! allQuestions)) s) \<and>
         h2 ! sectionB_part1_at p = sectionB_part1 (allocate (qByMarks (h ! allQuestions)) s) \<and>
         h2 ! sectionB_part2_at p = sectionB_part2 (allocate (qByMarks (h ! allQuestions)) s) \<and>
         h2 ! sectionC_at p = sectionC (allocate (qByMarks (h ! allQuestions)) s)"
    using inp a(1-5) same q(1) by blast
  show ?thesis
    unfolding Let_def
    using sh pu run[unfolded h2_def p_def h1_def b_def] by blast
qed

text \<open>A store with the input array alone, at address 0.\<close>

theorem inputs_not_mutated_witness:
  "(0::nat) < length [[\<lparr>qid = ''a'', marks = 2\<rparr>, \<lparr>qid = ''b'', marks = 2\<rparr>,
                       \<lparr>qid = ''c'', marks = 3\<rparr>]] \<and>
   fst (snd (shuffleArray_st 0
     [[\<lparr>qid = ''a'', marks = 2\<rparr>, \<lparr>qid = ''b'', marks = 2\<rparr>, \<lparr>qid = ''c'', marks = 3\<rparr>]]
     (fromN 0))) ! 0 =
     [\<lparr>qid = ''a'', marks = 2\<rparr>, \<lparr>qid = ''b'', marks = 2\<rparr>, \<lparr>qid = ''c'', marks = 3\<rparr>] \<and>
   store_end (allocate_st
     (fst (qByMarks_st 0
       [[\<lparr>qid = ''a'', marks = 2\<rparr>, \<lparr>qid = ''b'', marks = 2\<rparr>, \<lparr>qid = ''c'', marks = 3\<rparr>]]))
     (snd (qByMarks_st 0
       [[\<lparr>qid = ''a'', marks = 2\<rparr>, \<lparr>qid = ''b'', marks = 2\<rparr>, \<lparr>qid = ''c'', marks = 3\<rparr>]]))
     (fromN 0)) ! 0 =
     [\<lparr>qid = ''a'', marks = 2\<rparr>, \<lparr>qid = ''b'', marks = 2\<rparr>, \<lparr>qid = ''c'', marks = 3\<rparr>]"
proof -
  let ?h = "[[\<lparr>qid = ''a'', marks = 2\<rparr>, \<lparr>qid = ''b'', marks = 2\<rparr>, \<lparr>qid = ''c'', marks = 3\<rparr>]]"
  have v: "(0::nat) < length ?h" by simp
  from inputs_not_mutated[OF v v, of "fromN 0" Map.empty 2 0 "{}"]
  show ?thesis using v by (simp add: Let_def)
qed

end
